theory Spec2Isabelle
  imports Main
begin

section \<open>JavaScript values used by the converter\<close>

text \<open>
  A JavaScript \<open>Map\<close> keeps its entries in insertion order; \<open>set\<close> on a key that is
  already present replaces the value in place, \<open>values()\<close> iterates in insertion order.
  The converter iterates over \<open>values()\<close> (title lookup of milestones), so the maps are
  association lists with exactly that behaviour.
\<close>

type_synonym ('k, 'v) jsmap = "('k \<times> 'v) list"

fun map_set :: "'k \<Rightarrow> 'v \<Rightarrow> ('k, 'v) jsmap \<Rightarrow> ('k, 'v) jsmap" where
  "map_set k v [] = [(k, v)]"
| "map_set k v ((k', v') # m) = (if k' = k then (k, v) # m else (k', v') # map_set k v m)"

definition map_get :: "'k \<Rightarrow> ('k, 'v) jsmap \<Rightarrow> 'v option" where
  "map_get k m = map_of m k"

definition map_has :: "'k \<Rightarrow> ('k, 'v) jsmap \<Rightarrow> bool" where
  "map_has k m = (map_of m k \<noteq> None)"

definition map_keys :: "('k, 'v) jsmap \<Rightarrow> 'k list" where
  "map_keys m = map fst m"

definition map_values :: "('k, 'v) jsmap \<Rightarrow> 'v list" where
  "map_values m = map snd m"

text \<open>
  Identifiers are JavaScript numbers that hold integers. The one non-integer value the
  builders can produce is \<open>-Infinity\<close>: \<open>Math.max\<close> of no arguments. Adding an integer
  to \<open>-Infinity\<close> gives \<open>-Infinity\<close>.
\<close>

datatype jsnumber = NegInfinity | Finite int

fun js_max :: "jsnumber \<Rightarrow> jsnumber \<Rightarrow> jsnumber" where
  "js_max NegInfinity y = y"
| "js_max x NegInfinity = x"
| "js_max (Finite a) (Finite b) = Finite (max a b)"

definition Math_max :: "int list \<Rightarrow> jsnumber" where
  "Math_max xs = foldl js_max NegInfinity (map Finite xs)"

fun js_add :: "int \<Rightarrow> jsnumber \<Rightarrow> jsnumber" where
  "js_add a NegInfinity = NegInfinity"
| "js_add a (Finite b) = Finite (a + b)"

fun js_less :: "jsnumber \<Rightarrow> jsnumber \<Rightarrow> bool" where
  "js_less NegInfinity NegInfinity = False"
| "js_less NegInfinity (Finite b) = True"
| "js_less (Finite a) NegInfinity = False"
| "js_less (Finite a) (Finite b) = (a < b)"

section \<open>Entities\<close>

text \<open>
  \<open>SimpleItem\<close> of \<open>utils.ts\<close>. The GitLab entities (issue, merge request, milestone,
  note) are used by the converter only through the fields below; they extend the simple
  item, which is what the source's cast of a placeholder to a GitLab entity relies on.
\<close>

record SimpleItem =
  iid :: int
  title :: string
  description :: "string option"
  state :: "string option"

record GitLabPosition =
  base_sha :: string
  head_sha :: string
  old_path :: string
  new_path :: string
  old_line :: "int option"
  new_line :: "int option"

record GitLabItem = SimpleItem +
  author_username :: "string option"
  created_at :: "string option"
  position :: "GitLabPosition option"

record AttachmentMetadata =
  origin :: string
  destination :: string
  mimeType :: "string option"

datatype error = Error string

record RepoConverter =
  milestoneMap :: "(int, SimpleItem) jsmap option"
  issueMap :: "(int, int) jsmap option"
  mrMap :: "(int, jsnumber) jsmap option"
  attachmentMap :: "(string, AttachmentMetadata) jsmap"

section \<open>Identifier map builders of the converter\<close>

text \<open>
  \<open>buildMilestoneMap\<close>: the two lists are what the helpers return. The source also
  counts \<open>expectedIdx\<close> in this loop and never reads it.
\<close>

definition simpleItem :: "int \<Rightarrow> string \<Rightarrow> SimpleItem" where
  "simpleItem n t = \<lparr>iid = n, title = t, description = None, state = None\<rparr>"

definition findMilestone :: "SimpleItem list \<Rightarrow> 'a SimpleItem_scheme \<Rightarrow> SimpleItem option" where
  "findMilestone githubMilestones milestone =
     find (\<lambda>m. title m = title milestone) githubMilestones"

fun milestoneLoop ::
  "bool \<Rightarrow> SimpleItem list \<Rightarrow> 'a SimpleItem_scheme list \<Rightarrow> int \<Rightarrow>
   (int, SimpleItem) jsmap \<Rightarrow> (int, SimpleItem) jsmap" where
  "milestoneLoop usePlaceholders githubMilestones [] lastMilestoneId mm = mm"
| "milestoneLoop usePlaceholders githubMilestones (milestone # rest) lastMilestoneId mm =
     (case findMilestone githubMilestones milestone of
        Some foundMilestone \<Rightarrow>
          milestoneLoop usePlaceholders githubMilestones rest
            (max lastMilestoneId (iid foundMilestone))
            (map_set (iid milestone) foundMilestone mm)
      | None \<Rightarrow>
          (let last' = (if usePlaceholders then max lastMilestoneId (iid milestone - 1)
                        else lastMilestoneId)
           in milestoneLoop usePlaceholders githubMilestones rest (last' + 1)
                (map_set (iid milestone) (simpleItem (last' + 1) (title milestone)) mm)))"

definition buildMilestoneMap ::
  "bool \<Rightarrow> SimpleItem list \<Rightarrow> 'a SimpleItem_scheme list \<Rightarrow> (int, SimpleItem) jsmap" where
  "buildMilestoneMap usePlaceholders githubMilestones gitlabMilestones =
     milestoneLoop usePlaceholders githubMilestones gitlabMilestones
       (foldl (\<lambda>lastMilestoneId m. max lastMilestoneId (iid m)) 0 githubMilestones) []"

text \<open>
  \<open>buildIssueMap\<close>: the GitLab issues and the flag are fetched and not used; the map
  sends every GitHub issue number to itself.
\<close>

definition buildIssueMap :: "bool \<Rightarrow> int list \<Rightarrow> 'a SimpleItem_scheme list \<Rightarrow> (int, int) jsmap" where
  "buildIssueMap usePlaceholders githubIssueNumbers gitlabIssues =
     foldl (\<lambda>issueMap n. map_set n n issueMap) [] githubIssueNumbers"

text \<open>
  \<open>buildMergeRequestMap\<close>: throws when the converter has no issue map; sorts by
  \<open>iid\<close> (a stable sort), then walks the list once. Nothing is spliced into the list here.
\<close>

fun mrLoop ::
  "bool \<Rightarrow> jsnumber \<Rightarrow> int \<Rightarrow> 'a SimpleItem_scheme list \<Rightarrow>
   (int, jsnumber) jsmap \<Rightarrow> (int, jsnumber) jsmap" where
  "mrLoop usePlaceholders lastIssueNumber i [] mrm = mrm"
| "mrLoop usePlaceholders lastIssueNumber i (mr # rest) mrm =
     (let expectedIdx = i + 1 in
      if usePlaceholders \<and> iid mr \<noteq> expectedIdx
      then mrLoop usePlaceholders lastIssueNumber (i + 1) rest
             (map_set expectedIdx (js_add expectedIdx lastIssueNumber) mrm)
      else mrLoop usePlaceholders lastIssueNumber (i + 1) rest
             (map_set (iid mr) (js_add expectedIdx lastIssueNumber) mrm))"

definition buildMergeRequestMap ::
  "RepoConverter \<Rightarrow> bool \<Rightarrow> 'a SimpleItem_scheme list \<Rightarrow> error + (int, jsnumber) jsmap" where
  "buildMergeRequestMap conv usePlaceholders mergeRequests =
     (case issueMap conv of
        None \<Rightarrow> Inl (Error ''issueMap not initialised'')
      | Some im \<Rightarrow>
          Inr (mrLoop usePlaceholders (Math_max (map_values im)) 0
                 (sort_key iid mergeRequests) []))"

section \<open>Map building while entities are created\<close>

text \<open>
  Numbers as JavaScript prints them in a template literal or a string concatenation
  (integers only; the model does not cover values beyond \<open>2^53\<close>, where a JavaScript
  number stops being an exact integer).
\<close>

definition digitChar :: "nat \<Rightarrow> char" where
  "digitChar d = ''0123456789'' ! d"

function showNat :: "nat \<Rightarrow> string" where
  "showNat n = (if n < 10 then [digitChar n] else showNat (n div 10) @ [digitChar (n mod 10)])"
  by pat_completeness auto
termination
  by (relation "measure id") auto

declare showNat.simps [simp del]

definition showInt :: "int \<Rightarrow> string" where
  "showInt i = (if i < 0 then CHR ''-'' # showNat (nat (- i)) else showNat (nat i))"

fun showNumber :: "jsnumber \<Rightarrow> string" where
  "showNumber NegInfinity = ''-Infinity''"
| "showNumber (Finite i) = showInt i"

text \<open>
  \<open>createPlaceholderData\<close>: \<open>typeof item\<close> is \<open>object\<close> for every entity. The source
  casts the result to the GitLab entity type; the fields a placeholder does not have
  are undefined.
\<close>

definition createPlaceholderData :: "'a SimpleItem_scheme \<Rightarrow> int \<Rightarrow> SimpleItem" where
  "createPlaceholderData item expectedIdx =
     \<lparr>iid = expectedIdx,
      title = ''[PLACEHOLDER] - for object #'' @ showInt expectedIdx,
      description = Some ''This is to ensure that the numbering in GitHub is consistent. In particular it helps with auto-references in comments using #, %, !, etc.'',
      state = Some ''closed''\<rparr>"

definition asGitLabItem :: "SimpleItem \<Rightarrow> GitLabItem" where
  "asGitLabItem p =
     \<lparr>iid = iid p, title = title p, description = description p, state = state p,
      author_username = None, created_at = None, position = None\<rparr>"

definition splice :: "nat \<Rightarrow> 'a \<Rightarrow> 'a list \<Rightarrow> 'a list" where
  "splice i x xs = take i xs @ x # drop i xs"

text \<open>
  The first loop of \<open>transferIssues\<close>. The array grows when a placeholder is spliced in
  and the loop runs up to the current length, so it need not end: with an \<open>iid\<close> below
  the expected index it splices for ever. Not ending is the value \<open>None\<close>.
\<close>

partial_function (option) issueLoop ::
  "bool \<Rightarrow> nat \<Rightarrow> GitLabItem list \<Rightarrow> (int, int) jsmap \<Rightarrow>
   (GitLabItem list \<times> (int, int) jsmap) option" where
  "issueLoop usePlaceholders i issues im =
     (if i < length issues then
        (let issue = issues ! i; expectedIdx = int i + 1 in
         if usePlaceholders \<and> iid issue \<noteq> expectedIdx
         then issueLoop usePlaceholders (i + 1)
                (splice i (asGitLabItem (createPlaceholderData issue expectedIdx)) issues)
                (map_set expectedIdx expectedIdx im)
         else issueLoop usePlaceholders (i + 1) issues (map_set (iid issue) expectedIdx im))
      else Some (issues, im))"

definition transferIssues ::
  "bool \<Rightarrow> GitLabItem list \<Rightarrow> (GitLabItem list \<times> (int, int) jsmap) option" where
  "transferIssues usePlaceholders issues =
     issueLoop usePlaceholders 0 (sort_key iid issues) []"

text \<open>
  The first loop of \<open>transferMergeRequests\<close>, with the same splice. Reading
  \<open>converter.issueMap.values()\<close> of a converter without issue map is a \<open>TypeError\<close>.
\<close>

partial_function (option) mergeRequestLoop ::
  "bool \<Rightarrow> jsnumber \<Rightarrow> nat \<Rightarrow> GitLabItem list \<Rightarrow> (int, jsnumber) jsmap \<Rightarrow>
   (GitLabItem list \<times> (int, jsnumber) jsmap) option" where
  "mergeRequestLoop usePlaceholders lastIssueNumber i mergeRequests mrm =
     (if i < length mergeRequests then
        (let mr = mergeRequests ! i; expectedIdx = int i + 1 in
         if usePlaceholders \<and> iid mr \<noteq> expectedIdx
         then mergeRequestLoop usePlaceholders lastIssueNumber (i + 1)
                (splice i (asGitLabItem (createPlaceholderData mr expectedIdx)) mergeRequests)
                (map_set expectedIdx (js_add expectedIdx lastIssueNumber) mrm)
         else mergeRequestLoop usePlaceholders lastIssueNumber (i + 1) mergeRequests
                (map_set (iid mr) (js_add expectedIdx lastIssueNumber) mrm))
      else Some (mergeRequests, mrm))"

definition transferMergeRequests ::
  "RepoConverter \<Rightarrow> bool \<Rightarrow> GitLabItem list \<Rightarrow>
   (error + GitLabItem list \<times> (int, jsnumber) jsmap) option" where
  "transferMergeRequests conv usePlaceholders mergeRequests =
     (case issueMap conv of
        None \<Rightarrow> Some (Inl (Error ''TypeError''))
      | Some im \<Rightarrow>
          map_option Inr
            (mergeRequestLoop usePlaceholders (Math_max (map_values im)) 0
               (sort_key iid mergeRequests) []))"


section \<open>The run\<close>

text \<open>
  \<open>migrate\<close>, as far as the order of its steps goes. The two registrations and every
  transfer are calls to the outside; a transfer is recorded by the phase it enters.
  The three builders are chained and their results dropped (the chain does not store
  them in the converter); an error of the chain is logged and ends the process with
  exit code 1. The transfers follow in the order below; each of them is taken to
  return, what it does on the destination is not part of this function.
\<close>

datatype phase =
  Description | Milestones | Labels | Releases | Issues | MergeRequestLog | MergeRequests |
  Attachments

datatype outcome = Exit int | TransferComplete

definition buildMaps ::
  "RepoConverter \<Rightarrow> bool \<Rightarrow> bool \<Rightarrow> bool \<Rightarrow> SimpleItem list \<Rightarrow> GitLabItem list \<Rightarrow>
   int list \<Rightarrow> GitLabItem list \<Rightarrow> GitLabItem list \<Rightarrow> error + unit" where
  "buildMaps conv upMilestones upIssues upMergeRequests githubMilestones gitlabMilestones
     githubIssueNumbers gitlabIssues mergeRequests =
     (let _ = buildMilestoneMap upMilestones githubMilestones gitlabMilestones;
          _ = buildIssueMap upIssues githubIssueNumbers gitlabIssues
      in case buildMergeRequestMap conv upMergeRequests mergeRequests of
           Inl err \<Rightarrow> Inl err
         | Inr _ \<Rightarrow> Inr ())"

definition transferPhases :: "(phase \<Rightarrow> bool) \<Rightarrow> bool \<Rightarrow> phase list" where
  "transferPhases transfer logMergeRequests =
     (if transfer Description then [Description] else []) @
     (if transfer Milestones then [Milestones] else []) @
     (if transfer Labels then [Labels] else []) @
     (if transfer Releases then [Releases] else []) @
     (if transfer Issues then [Issues] else []) @
     (if transfer MergeRequests
      then (if logMergeRequests then [MergeRequestLog] else [MergeRequests]) else []) @
     (if transfer Attachments then [Attachments] else [])"

definition migrate ::
  "RepoConverter \<Rightarrow> bool \<Rightarrow> (phase \<Rightarrow> bool) \<Rightarrow> bool \<Rightarrow> bool \<Rightarrow> bool \<Rightarrow> bool \<Rightarrow>
   SimpleItem list \<Rightarrow> GitLabItem list \<Rightarrow> int list \<Rightarrow> GitLabItem list \<Rightarrow> GitLabItem list \<Rightarrow>
   outcome \<times> phase list" where
  "migrate conv registered transfer logMergeRequests upMilestones upIssues upMergeRequests
     githubMilestones gitlabMilestones githubIssueNumbers gitlabIssues mergeRequests =
     (if \<not> registered then (Exit 1, [])
      else case buildMaps conv upMilestones upIssues upMergeRequests githubMilestones
                  gitlabMilestones githubIssueNumbers gitlabIssues mergeRequests of
             Inl err \<Rightarrow> (Exit 1, [])
           | Inr _ \<Rightarrow> (TransferComplete, transferPhases transfer logMergeRequests))"

section \<open>Strings and regular expressions\<close>

text \<open>
  Strings are lists of characters. The classes of the regular expressions: \<open>\d\<close>,
  \<open>\w\<close> (its complement is \<open>\W\<close>) and the line terminators that \<open>.\<close> does not match.
\<close>

abbreviation dq :: char where "dq \<equiv> CHR 0x22"
abbreviation sq :: char where "sq \<equiv> CHR 0x27"
abbreviation nl :: char where "nl \<equiv> CHR 0x0A"
abbreviation cr :: char where "cr \<equiv> CHR 0x0D"

definition isDigit :: "char \<Rightarrow> bool" where
  "isDigit c = (c \<in> set ''0123456789'')"

definition isWordChar :: "char \<Rightarrow> bool" where
  "isWordChar c =
     (c \<in> set ''abcdefghijklmnopqrstuvwxyzABCDEFGHIJKLMNOPQRSTUVWXYZ0123456789_'')"

definition isLineTerminator :: "char \<Rightarrow> bool" where
  "isLineTerminator c = (c = nl \<or> c = cr)"

text \<open>\<open>parseInt\<close>, on the digit strings the regular expressions capture.\<close>

definition digitValue :: "char \<Rightarrow> nat" where
  "digitValue c = of_char c - 48"

definition parseInt :: "string \<Rightarrow> int" where
  "parseInt ds = int (foldl (\<lambda>n c. 10 * n + digitValue c) 0 ds)"

text \<open>
  A regular expression, as the matcher it compiles to: given the character before a
  position (none at the start of the string) and the string from the position on, the
  captured groups and the matched text when the expression matches at that position.
\<close>

type_synonym 'g regex = "char option \<Rightarrow> string \<Rightarrow> ('g \<times> string) option"

text \<open>
  \<open>String.prototype.replace\<close> with a global regular expression and a replacer
  function: the string is scanned from the left, a match is replaced by what the
  replacer returns for its groups and its offset, and the scan goes on behind the
  match. A lookbehind sees the characters of the string that is scanned. No
  expression of \<open>convertBody\<close> matches the empty string, so a match is never empty.
\<close>

function replaceFrom ::
  "'g regex \<Rightarrow> ('g \<Rightarrow> nat \<Rightarrow> string) \<Rightarrow> nat \<Rightarrow> char option \<Rightarrow> string \<Rightarrow> string" where
  "replaceFrom re f off prev [] = []"
| "replaceFrom re f off prev (c # cs) =
     (case re prev (c # cs) of
        Some (g, m) \<Rightarrow>
          if m \<noteq> []
          then f g off @
               replaceFrom re f (off + length m) (Some (last m)) (drop (length m) (c # cs))
          else c # replaceFrom re f (off + 1) (Some c) cs
      | None \<Rightarrow> c # replaceFrom re f (off + 1) (Some c) cs)"
  by pat_completeness auto
termination
  by (relation "measure (\<lambda>(re, f, off, prev, s). length s)") auto

definition replaceAll :: "'g regex \<Rightarrow> ('g \<Rightarrow> string) \<Rightarrow> string \<Rightarrow> string" where
  "replaceAll re f s = replaceFrom re (\<lambda>g off. f g) 0 None s"

text \<open>\<open>String.prototype.matchAll\<close>: the groups and the offset of every match.\<close>

function matchAllFrom :: "'g regex \<Rightarrow> nat \<Rightarrow> char option \<Rightarrow> string \<Rightarrow> ('g \<times> nat) list" where
  "matchAllFrom re off prev [] = []"
| "matchAllFrom re off prev (c # cs) =
     (case re prev (c # cs) of
        Some (g, m) \<Rightarrow>
          if m \<noteq> []
          then (g, off) #
               matchAllFrom re (off + length m) (Some (last m)) (drop (length m) (c # cs))
          else matchAllFrom re (off + 1) (Some c) cs
      | None \<Rightarrow> matchAllFrom re (off + 1) (Some c) cs)"
  by pat_completeness auto
termination
  by (relation "measure (\<lambda>(re, off, prev, s). length s)") auto

definition matchAll :: "'g regex \<Rightarrow> string \<Rightarrow> ('g \<times> nat) list" where
  "matchAll re s = matchAllFrom re 0 None s"

text \<open>
  The pieces of the expressions. A key of the user table or the project table is put
  into the expression as it is: its characters match themselves, \<open>.\<close> matches every
  character but a line terminator. (Keys with other operators of regular expressions
  are outside this model.)
\<close>

fun matchKey :: "string \<Rightarrow> string \<Rightarrow> string option" where
  "matchKey [] s = Some []"
| "matchKey (p # ps) [] = None"
| "matchKey (p # ps) (c # cs) =
     (if (if p = CHR ''.'' then \<not> isLineTerminator c else p = c)
      then map_option ((#) c) (matchKey ps cs) else None)"

definition matchDigits :: "string \<Rightarrow> string option" where
  "matchDigits s = (let ds = takeWhile isDigit s in if ds = [] then None else Some ds)"

definition matchQuoted :: "string \<Rightarrow> string option" where
  "matchQuoted s =
     (case s of
        [] \<Rightarrow> None
      | q # cs \<Rightarrow>
          if q \<noteq> dq then None
          else (let t = takeWhile (\<lambda>c. c \<noteq> dq \<and> \<not> isLineTerminator c) cs in
                case drop (length t) cs of
                  [] \<Rightarrow> None
                | e # _ \<Rightarrow> if e = dq then Some t else None))"

definition nonWordBefore :: "char option \<Rightarrow> bool" where
  "nonWordBefore prev = (case prev of None \<Rightarrow> False | Some p \<Rightarrow> \<not> isWordChar p)"

text \<open>\<open>@k1|@k2|...\<close>; the group is the match.\<close>

fun matchUser :: "string list \<Rightarrow> string \<Rightarrow> string option" where
  "matchUser [] s = None"
| "matchUser (k # ks) s =
     (case matchKey (CHR ''@'' # k) s of Some m \<Rightarrow> Some m | None \<Rightarrow> matchUser ks s)"

definition userRegex :: "string list \<Rightarrow> string regex" where
  "userRegex ks prev s = map_option (\<lambda>m. (m, m)) (matchUser ks s)"

text \<open>
  \<open>(k1)S(body)|(k2)S(body)|...\<close> for a sigil \<open>S\<close>: the alternatives are tried in
  order. Every alternative has two groups of its own, so the groups 1 and 2, which the
  replacers read, are set only when the first alternative is the one that matched.
\<close>

definition matchAlternative ::
  "char \<Rightarrow> (string \<Rightarrow> string option) \<Rightarrow> string \<Rightarrow> string \<Rightarrow> (string \<times> string) option" where
  "matchAlternative sigil body k s =
     (case matchKey k s of
        None \<Rightarrow> None
      | Some mk \<Rightarrow>
          (case drop (length mk) s of
             [] \<Rightarrow> None
           | c # r \<Rightarrow>
               if c = sigil then map_option (\<lambda>b. (mk, b)) (body r) else None))"

fun matchProject ::
  "char \<Rightarrow> (string \<Rightarrow> string option) \<Rightarrow> string list \<Rightarrow> nat \<Rightarrow> string \<Rightarrow>
   (nat \<times> string \<times> string) option" where
  "matchProject sigil body [] i s = None"
| "matchProject sigil body (k # ks) i s =
     (case matchAlternative sigil body k s of
        Some (mk, b) \<Rightarrow> Some (i, mk, b)
      | None \<Rightarrow> matchProject sigil body ks (i + 1) s)"

definition projectRegex ::
  "char \<Rightarrow> (string \<Rightarrow> string option) \<Rightarrow> string list \<Rightarrow> (string option \<times> string option) regex" where
  "projectRegex sigil body ks prev s =
     (case matchProject sigil body ks 0 s of
        None \<Rightarrow> None
      | Some (i, mk, b) \<Rightarrow>
          Some ((if i = 0 then Some mk else None, if i = 0 then Some b else None),
                mk @ sigil # b))"

definition quotedBody :: "string \<Rightarrow> string option" where
  "quotedBody s = map_option (\<lambda>t. dq # t @ [dq]) (matchQuoted s)"

text \<open>\<open>(?<=\W)S(\d+)\<close> and \<open>(?<=\W)%"(.*?)"\<close>.\<close>

definition numberRefRegex :: "char \<Rightarrow> string regex" where
  "numberRefRegex sigil prev s =
     (case s of
        [] \<Rightarrow> None
      | c # r \<Rightarrow>
          if c = sigil \<and> nonWordBefore prev
          then map_option (\<lambda>ds. (ds, c # ds)) (matchDigits r) else None)"

definition titleRefRegex :: "string regex" where
  "titleRefRegex prev s =
     (case s of
        [] \<Rightarrow> None
      | c # r \<Rightarrow>
          if c = CHR ''%'' \<and> nonWordBefore prev
          then map_option (\<lambda>t. (t, c # dq # t @ [dq])) (matchQuoted r) else None)"

text \<open>\<open>(!?)\[([^\]]+)\]\((\/uploads[^)]+)\)\<close>: the groups are prefix, name and URL.\<close>

definition matchLink :: "string \<Rightarrow> (string \<times> string) option" where
  "matchLink s =
     (case s of
        [] \<Rightarrow> None
      | b # r \<Rightarrow>
          if b \<noteq> CHR ''['' then None
          else (let name = takeWhile (\<lambda>c. c \<noteq> CHR '']'') r; r1 = drop (length name) r in
                if name = [] \<or> take 10 r1 \<noteq> ''](/uploads'' then None
                else (let u = takeWhile (\<lambda>c. c \<noteq> CHR '')'') (drop 10 r1) in
                      if u = [] \<or> take 1 (drop (10 + length u) r1) \<noteq> '')'' then None
                      else Some (name, ''/uploads'' @ u))))"

definition attachmentRegex :: "(string \<times> string \<times> string) regex" where
  "attachmentRegex prev s =
     (let (p, r) = (case s of c # r \<Rightarrow> if c = CHR ''!'' then (''!'', r) else ([], s) | [] \<Rightarrow> ([], s))
      in map_option (\<lambda>(name, url). ((p, name, url), p @ ''['' @ name @ '']('' @ url @ '')''))
           (matchLink r))"

section \<open>The body rewriter\<close>

text \<open>
  What \<open>convertBody\<close> reads besides the converter: the settings (the two tables are
  \<open>null\<close> or objects, given by their entries in the order of \<open>Object.keys\<close>), the
  fields of the GitHub helper, the storage helper's \<open>preprocessAttachment\<close>, and two
  functions of the platform: the date formatting of \<open>toLocaleString\<close> and the MD5
  digest in hexadecimal.
\<close>

record Environment =
  usermap :: "(string \<times> string) list option"
  projectmap :: "(string \<times> string) list option"
  transferAttachments :: bool
  githubBaseUrl :: string
  githubUrl :: string
  githubOwner :: string
  githubRepo :: string
  preprocessAttachment :: "string \<Rightarrow> AttachmentMetadata"
  toLocaleString :: "string \<Rightarrow> string"
  md5 :: "string \<Rightarrow> string"

text \<open>
  Reading a property of a table, and printing a value that may be \<open>undefined\<close>: a
  missing property is \<open>undefined\<close>, which a concatenation prints as such.
\<close>

definition orUndefined :: "string option \<Rightarrow> string" where
  "orUndefined v = (case v of None \<Rightarrow> ''undefined'' | Some s \<Rightarrow> s)"

definition property :: "(string \<times> string) list \<Rightarrow> string option \<Rightarrow> string" where
  "property table k = orUndefined (map_of table (orUndefined k))"

definition startsWith :: "string \<Rightarrow> string \<Rightarrow> bool" where
  "startsWith s p = (take (length p) s = p)"

text \<open>The two storage helpers. The S3 helper hashes and looks up the MIME type outside.\<close>

definition PassThroughStorageHelper :: "string \<Rightarrow> string option \<Rightarrow> string \<Rightarrow> AttachmentMetadata" where
  "PassThroughStorageHelper gitlabHost projectPath url =
     \<lparr>origin = url,
      destination = (if gitlabHost \<noteq> [] \<and> last gitlabHost = CHR ''/'' then gitlabHost
                     else gitlabHost @ ''/'') @ orUndefined projectPath @ url,
      mimeType = None\<rparr>"

definition S3Helper ::
  "(string \<Rightarrow> string) \<Rightarrow> (string \<Rightarrow> string option) \<Rightarrow> (string \<Rightarrow> string) \<Rightarrow> string \<Rightarrow>
   string option \<Rightarrow> string \<Rightarrow> AttachmentMetadata" where
  "S3Helper sha256 mimeLookup basename bucket pre url =
     (let newFileName = sha256 url @ ''/'' @ basename url;
          relativePath = (case pre of
                            None \<Rightarrow> newFileName
                          | Some p \<Rightarrow> if p = [] then newFileName else p @ ''/'' @ newFileName)
      in \<lparr>origin = url,
          destination = ''https://'' @ bucket @ ''.s3.amazonaws.com/'' @ relativePath,
          mimeType = mimeLookup (basename url)\<rparr>)"

text \<open>\<open>createLineRef\<close> and \<open>addMigrationLine\<close>.\<close>

definition truthyLine :: "int option \<Rightarrow> bool" where
  "truthyLine l = (case l of None \<Rightarrow> False | Some n \<Rightarrow> n \<noteq> 0)"

definition createLineRef :: "Environment \<Rightarrow> GitLabPosition \<Rightarrow> string \<Rightarrow> string" where
  "createLineRef env pos repoLink =
     (if repoLink = [] \<or> \<not> startsWith repoLink (githubBaseUrl env) \<or> head_sha pos = [] then []
      else
        (let hasNew = truthyLine (new_line pos) \<and> new_path pos \<noteq> [];
             hasOld = truthyLine (old_line pos) \<and> old_path pos \<noteq> [];
             side = (if \<not> hasOld then ''R'' else ''L'');
             path = (if hasNew \<or> hasOld then (if \<not> hasOld then new_path pos else old_path pos)
                     else []);
             line = (if hasNew \<or> hasOld then (if \<not> hasOld then new_line pos else old_line pos)
                     else None);
             lineStr = (case line of None \<Rightarrow> [] | Some n \<Rightarrow> showInt n);
             slug = (if hasNew \<or> hasOld then ''#diff-'' @ md5 env path @ side @ lineStr else []);
             ref = (if path \<noteq> [] \<and> truthyLine line then path @ '' line '' @ lineStr
                    else head_sha pos)
         in ''Commented on ['' @ ref @ '']('' @ repoLink @ ''/compare/'' @ base_sha pos @ ''..'' @
            head_sha pos @ slug @ '')'' @ [nl, nl]))"

definition addMigrationLine :: "Environment \<Rightarrow> string \<Rightarrow> GitLabItem \<Rightarrow> string \<Rightarrow> string" where
  "addMigrationLine env str item repoLink =
     (case (author_username item, created_at item) of
        (Some username, Some created) \<Rightarrow>
          if username = [] \<or> created = [] then str
          else
            (let attribution = ''In GitLab by @'' @ username @ '' on '' @ toLocaleString env created;
                 lineRef = (case position item of
                              None \<Rightarrow> []
                            | Some pos \<Rightarrow> createLineRef env pos repoLink);
                 summary = attribution @ (if lineRef \<noteq> [] then [nl, nl] @ lineRef else [])
             in summary @ [nl, nl] @ str)
      | _ \<Rightarrow> str)"

text \<open>The replacers of \<open>convertBody\<close>.\<close>

definition issueReplacer :: "RepoConverter \<Rightarrow> string \<Rightarrow> string" where
  "issueReplacer conv match =
     (case issueMap conv of
        None \<Rightarrow> ''#'' @ match
      | Some im \<Rightarrow>
          (case map_get (parseInt match) im of
             Some issue \<Rightarrow> ''#'' @ showInt issue
           | None \<Rightarrow> ''#'' @ match))"

definition mrReplacer :: "RepoConverter \<Rightarrow> string \<Rightarrow> string" where
  "mrReplacer conv match =
     (case mrMap conv of
        None \<Rightarrow> ''!'' @ match
      | Some mm \<Rightarrow>
          (case map_get (parseInt match) mm of
             Some pr \<Rightarrow> ''#'' @ showNumber pr
           | None \<Rightarrow> ''!'' @ match))"

definition milestoneReplacer ::
  "Environment \<Rightarrow> RepoConverter \<Rightarrow> string \<Rightarrow> string \<Rightarrow> string \<Rightarrow> string" where
  "milestoneReplacer env conv number ttl repo =
     (let milestone =
            (case milestoneMap conv of
               None \<Rightarrow> None
             | Some mm \<Rightarrow>
                 if number \<noteq> [] then map_get (parseInt number) mm
                 else if ttl \<noteq> [] then find (\<lambda>m. title m = ttl) (map_values mm)
                 else None)
      in case milestone of
           Some m \<Rightarrow>
             ''['' @ title m @ '']('' @ githubUrl env @ ''/'' @ githubOwner env @ ''/'' @
             (if repo \<noteq> [] then repo else githubRepo env) @ ''/milestone/'' @ showInt (iid m) @ '')''
         | None \<Rightarrow>
             [sq] @ ''Reference to deleted milestone %'' @
             (if number \<noteq> [] then number else ttl) @ [sq])"

definition repoMapLink :: "Environment \<Rightarrow> (string \<times> string) list \<Rightarrow> string option \<Rightarrow> string" where
  "repoMapLink env pm repo = githubUrl env @ ''/'' @ githubOwner env @ ''/'' @ property pm repo"

text \<open>
  \<open>convertAttachments\<close>: a first pass over the matches fills the attachment map and
  the table from offset to replacement, a second pass replaces by offset.
\<close>

definition registerAttachment ::
  "Environment \<Rightarrow> (string, AttachmentMetadata) jsmap \<times> (nat, string) jsmap \<Rightarrow>
   (string \<times> string \<times> string) \<times> nat \<Rightarrow>
   (string, AttachmentMetadata) jsmap \<times> (nat, string) jsmap" where
  "registerAttachment env acc mtch =
     (case (acc, mtch) of
        ((am, offsetToAttachment), ((pre, name, url), index)) \<Rightarrow>
          (let data = preprocessAttachment env url
           in (map_set (origin data) data am,
               map_set index (pre @ ''['' @ name @ '']('' @ destination data @ '')'')
                 offsetToAttachment)))"

definition convertAttachments ::
  "Environment \<Rightarrow> RepoConverter \<Rightarrow> string \<Rightarrow> string \<times> RepoConverter" where
  "convertAttachments env conv body =
     (let (am, offsetToAttachment) =
            foldl (registerAttachment env) (attachmentMap conv, []) (matchAll attachmentRegex body)
      in (replaceFrom attachmentRegex
            (\<lambda>g offset. orUndefined (map_get offset offsetToAttachment)) 0 None body,
          conv\<lparr>attachmentMap := am\<rparr>))"

text \<open>\<open>convertBody\<close>: the passes in the order of the source.\<close>

definition tableOf :: "(string \<times> string) list option \<Rightarrow> (string \<times> string) list" where
  "tableOf t = (case t of None \<Rightarrow> [] | Some entries \<Rightarrow> entries)"

definition hasUsermap :: "Environment \<Rightarrow> bool" where
  "hasUsermap env = (usermap env \<noteq> None \<and> tableOf (usermap env) \<noteq> [])"

definition hasProjectmap :: "Environment \<Rightarrow> bool" where
  "hasProjectmap env = (projectmap env \<noteq> None \<and> tableOf (projectmap env) \<noteq> [])"

definition projectKeys :: "Environment \<Rightarrow> string list" where
  "projectKeys env = map fst (tableOf (projectmap env))"

definition convertUsers :: "Environment \<Rightarrow> string \<Rightarrow> string" where
  "convertUsers env str =
     (if hasUsermap env
      then replaceAll (userRegex (map fst (tableOf (usermap env))))
             (\<lambda>match. ''@'' @ property (tableOf (usermap env)) (Some (tl match))) str
      else str)"

definition projectReplacer :: "Environment \<Rightarrow> string option \<times> string option \<Rightarrow> string" where
  "projectReplacer env g =
     (case g of (p1, p2) \<Rightarrow> property (tableOf (projectmap env)) p1 @ ''#'' @ orUndefined p2)"

definition convertIssueRefs :: "Environment \<Rightarrow> RepoConverter \<Rightarrow> string \<Rightarrow> string" where
  "convertIssueRefs env conv str =
     (let str1 = (if hasProjectmap env
                  then replaceAll (projectRegex (CHR ''#'') matchDigits (projectKeys env))
                         (projectReplacer env) str
                  else str)
      in replaceAll (numberRefRegex (CHR ''#'')) (issueReplacer conv) str1)"

definition projectTitleReplacer :: "Environment \<Rightarrow> string option \<times> string option \<Rightarrow> string" where
  "projectTitleReplacer env g =
     (case g of
        (p1, p2) \<Rightarrow>
          ''[Milestone '' @ [dq] @ orUndefined p2 @ [dq] @ '' in '' @
          property (tableOf (projectmap env)) p1 @ '']('' @
          repoMapLink env (tableOf (projectmap env)) p1 @ ''/milestones})'')"

definition projectNumberReplacer :: "Environment \<Rightarrow> string option \<times> string option \<Rightarrow> string" where
  "projectNumberReplacer env g =
     (case g of
        (p1, p2) \<Rightarrow>
          ''[Milestone '' @ orUndefined p2 @ '' in '' @
          property (tableOf (projectmap env)) p1 @ '']('' @
          repoMapLink env (tableOf (projectmap env)) p1 @ ''/milestone/'' @ orUndefined p2 @ '')'')"

definition convertMilestoneRefs :: "Environment \<Rightarrow> RepoConverter \<Rightarrow> string \<Rightarrow> string" where
  "convertMilestoneRefs env conv str =
     (let str1 = (if hasProjectmap env
                  then replaceAll (projectRegex (CHR ''%'') matchDigits (projectKeys env))
                         (projectNumberReplacer env)
                         (replaceAll (projectRegex (CHR ''%'') quotedBody (projectKeys env))
                            (projectTitleReplacer env) str)
                  else str);
          str2 = replaceAll titleRefRegex (\<lambda>p1. milestoneReplacer env conv [] p1 []) str1
      in replaceAll (numberRefRegex (CHR ''%'')) (\<lambda>p1. milestoneReplacer env conv p1 [] []) str2)"

definition convertMergeRequestRefs :: "Environment \<Rightarrow> RepoConverter \<Rightarrow> string \<Rightarrow> string" where
  "convertMergeRequestRefs env conv str =
     (let str1 = (if hasProjectmap env
                  then replaceAll (projectRegex (CHR ''!'') matchDigits (projectKeys env))
                         (projectReplacer env) str
                  else str)
      in replaceAll (numberRefRegex (CHR ''!'')) (mrReplacer conv) str1)"

definition convertBody ::
  "Environment \<Rightarrow> RepoConverter \<Rightarrow> string \<Rightarrow> GitLabItem \<Rightarrow> bool \<Rightarrow> string \<times> RepoConverter" where
  "convertBody env conv str item add_line =
     (let repoLink = githubUrl env @ ''/'' @ githubOwner env @ ''/'' @ githubRepo env;
          str0 = (if add_line then addMigrationLine env str item repoLink else str);
          str1 = convertUsers env str0;
          str2 = convertIssueRefs env conv str1;
          str3 = convertMilestoneRefs env conv str2;
          str4 = convertMergeRequestRefs env conv str3
      in if transferAttachments env then convertAttachments env conv str4 else (str4, conv))"

section \<open>Auxiliary definitions of the proofs\<close>

text \<open>
  The distance the splicing loops still have to go: from the index reached to the
  \<open>iid\<close> of the last entity.
\<close>

definition gap :: "nat \<Rightarrow> GitLabItem list \<Rightarrow> nat" where
  "gap i suf = (case suf of [] \<Rightarrow> 0 | _ \<Rightarrow> nat (iid (last suf) - int i))"

text \<open>A GitLab entity with number and title only, for the concrete runs.\<close>

definition gitlabItem :: "int \<Rightarrow> string \<Rightarrow> GitLabItem" where
  "gitlabItem n t = asGitLabItem (simpleItem n t)"

text \<open>No match of an expression starts inside a prefix of the string.\<close>

fun noMatchIn :: "'g regex \<Rightarrow> char option \<Rightarrow> string \<Rightarrow> string \<Rightarrow> bool" where
  "noMatchIn re prev [] rest = True"
| "noMatchIn re prev (c # cs) rest =
     (re prev (c # cs @ rest) = None \<and> noMatchIn re (Some c) cs rest)"

text \<open>
  Concrete settings, a converter and entities for the runs that are evaluated: no
  tables, one project, two projects; a converter whose maps know issue 3, merge request
  2 and milestone 1; an entity without author and one with author and creation time.
\<close>

definition plainEnvironment :: Environment where
  "plainEnvironment =
     \<lparr>usermap = None, projectmap = None, transferAttachments = True,
      githubBaseUrl = ''https://github.com'', githubUrl = ''https://github.com'',
      githubOwner = ''owner'', githubRepo = ''repo'',
      preprocessAttachment = PassThroughStorageHelper ''https://gitlab.com'' (Some ''group/project''),
      toLocaleString = (\<lambda>d. d), md5 = (\<lambda>p. ''md5'')\<rparr>"

definition oneProjectEnvironment :: Environment where
  "oneProjectEnvironment =
     plainEnvironment\<lparr>projectmap := Some [(''otherorg/repo'', ''dest/repo'')]\<rparr>"

definition twoProjectsEnvironment :: Environment where
  "twoProjectsEnvironment =
     plainEnvironment\<lparr>projectmap :=
       Some [(''group/first'', ''Org/first''), (''otherorg/repo'', ''dest/repo'')]\<rparr>"

definition sampleConverter :: RepoConverter where
  "sampleConverter =
     \<lparr>milestoneMap = Some [(1, simpleItem 7 ''v1'')], issueMap = Some [(3, 42)],
      mrMap = Some [(2, Finite 50)], attachmentMap = []\<rparr>"

definition authoredItem :: GitLabItem where
  "authoredItem =
     (gitlabItem 1 ''entity'')\<lparr>author_username := Some ''bob'', created_at := Some ''2020-01-01''\<rparr>"

text \<open>A pass keeps a prefix: whatever follows it, the output begins with the prefix.\<close>

definition keepsPrefix :: "string \<Rightarrow> (string \<Rightarrow> string) \<Rightarrow> bool" where
  "keepsPrefix pre pass = (\<forall>rest. \<exists>rest'. pass (pre @ rest) = pre @ rest')"

text \<open>
  The link an attachment reference is rewritten to, and the bodies of one run handed
  to \<open>convertAttachments\<close> one after another, each call starting from the attachment
  map the call before left.
\<close>

definition attachmentLink :: "Environment \<Rightarrow> string \<times> string \<times> string \<Rightarrow> string" where
  "attachmentLink env g =
     (case g of
        (pre, name, url) \<Rightarrow>
          pre @ ''['' @ name @ '']('' @ destination (preprocessAttachment env url) @ '')'')"

fun convertAttachmentsAll ::
  "Environment \<Rightarrow> RepoConverter \<Rightarrow> string list \<Rightarrow> string list \<times> RepoConverter" where
  "convertAttachmentsAll env conv [] = ([], conv)"
| "convertAttachmentsAll env conv (body # bodies) =
     (case convertAttachments env conv body of
        (out, conv') \<Rightarrow>
          (case convertAttachmentsAll env conv' bodies of
             (outs, conv'') \<Rightarrow> (out # outs, conv'')))"

definition attachmentUrls :: "string \<Rightarrow> string list" where
  "attachmentUrls body = map (\<lambda>((pre, name, url), offset). url) (matchAll attachmentRegex body)"

text \<open>
  What a milestone map says: for every source \<open>iid\<close> the destination number and title.
  And the milestones a build allocates: the values of its map that the destination
  list did not have.
\<close>

definition destinations :: "(int, SimpleItem) jsmap \<Rightarrow> (int \<times> int \<times> string) list" where
  "destinations mm = map (\<lambda>(k, v). (k, iid v, title v)) mm"

definition allocatedMilestones ::
  "bool \<Rightarrow> SimpleItem list \<Rightarrow> 'a SimpleItem_scheme list \<Rightarrow> SimpleItem list" where
  "allocatedMilestones usePlaceholders githubMilestones gitlabMilestones =
     filter (\<lambda>v. findMilestone githubMilestones v = None)
       (map_values (buildMilestoneMap usePlaceholders githubMilestones gitlabMilestones))"

text \<open>
  The text that reaches the two same-project milestone passes of \<open>convertBody\<close>: the
  input of the milestone passes after the two cross-project passes, which run only
  with a project table.
\<close>

definition crossProjectMilestoneRefs :: "Environment \<Rightarrow> string \<Rightarrow> string" where
  "crossProjectMilestoneRefs env str =
     (if hasProjectmap env
      then replaceAll (projectRegex (CHR ''%'') matchDigits (projectKeys env))
             (projectNumberReplacer env)
             (replaceAll (projectRegex (CHR ''%'') quotedBody (projectKeys env))
                (projectTitleReplacer env) str)
      else str)"

text \<open>
  A key of the project table that can match from inside a reference: the key is empty,
  or it begins with a non-empty end piece of the reference (a \<open>.\<close> of the key stands
  for any character), so that a text behind the reference can complete the match.
\<close>

fun startsInside :: "string \<Rightarrow> string \<Rightarrow> bool" where
  "startsInside k [] = (k = [])"
| "startsInside k (a # u) =
     (k = [] \<or>
      (length (a # u) \<le> length k \<and> matchKey (take (length (a # u)) k) (a # u) \<noteq> None) \<or>
      startsInside k u)"

section \<open>Keys of the identifier maps\<close>

lemma map_of_map_set: "map_of (map_set k v m) = (map_of m)(k \<mapsto> v)"
  by (induction m) (auto simp: fun_eq_iff)

lemma keys_map_set: "set (map_keys (map_set k v m)) = insert k (set (map_keys m))"
proof -
  have "set (map_keys (map_set k v m)) = dom (map_of (map_set k v m))"
    by (simp add: map_keys_def dom_map_of_conv_image_fst)
  also have "\<dots> = insert k (dom (map_of m))"
    by (simp add: map_of_map_set)
  also have "\<dots> = insert k (set (map_keys m))"
    by (simp add: map_keys_def dom_map_of_conv_image_fst)
  finally show ?thesis .
qed

lemma insert_interval: "(a::int) \<le> b \<Longrightarrow> insert a {a + 1 .. b} = {a .. b}"
  by auto

lemma map_keys_Nil [simp]: "map_keys [] = []"
  by (simp add: map_keys_def)

lemma keys_milestoneLoop:
  "set (map_keys (milestoneLoop up gh ms lst mm)) = set (map_keys mm) \<union> iid ` set ms"
  by (induction ms arbitrary: lst mm) (auto simp: keys_map_set Let_def split: option.splits)

lemma keys_buildMilestoneMap:
  "set (map_keys (buildMilestoneMap up gh ms)) = iid ` set ms"
  by (simp add: buildMilestoneMap_def keys_milestoneLoop)

lemma keys_foldl_issue:
  "set (map_keys (foldl (\<lambda>issueMap n. map_set n n issueMap) m ns)) = set (map_keys m) \<union> set ns"
  by (induction ns arbitrary: m) (auto simp: keys_map_set)

lemma keys_buildIssueMap: "set (map_keys (buildIssueMap up ns gl)) = set ns"
  by (simp add: buildIssueMap_def keys_foldl_issue)

lemma keys_mrLoop_False:
  "set (map_keys (mrLoop False lst i mrs m)) = set (map_keys m) \<union> iid ` set mrs"
  by (induction mrs arbitrary: i m) (auto simp: keys_map_set Let_def)

lemma keys_buildMergeRequestMap_False:
  "buildMergeRequestMap conv False mrs = Inr m \<Longrightarrow> set (map_keys m) = iid ` set mrs"
  by (auto simp: buildMergeRequestMap_def keys_mrLoop_False split: option.splits)

lemma issueLoop_False:
  "\<exists>im'. issueLoop False i issues im = Some (issues, im') \<and>
     set (map_keys im') = set (map_keys im) \<union> iid ` set (drop i issues)"
proof (induction "length issues - i" arbitrary: i im)
  case 0
  then show ?case by (subst issueLoop.simps) simp
next
  case (Suc n)
  then have lt: "i < length issues" and n: "n = length issues - (i + 1)" by auto
  from Suc.hyps(1)[OF n, of "map_set (iid (issues ! i)) (int i + 1) im"]
  obtain im' where s: "issueLoop False (i + 1) issues (map_set (iid (issues ! i)) (int i + 1) im) = Some (issues, im')"
    and k: "set (map_keys im') = set (map_keys (map_set (iid (issues ! i)) (int i + 1) im)) \<union> iid ` set (drop (i + 1) issues)"
    by blast
  have d: "drop i issues = issues ! i # drop (i + 1) issues"
    using lt by (simp add: Cons_nth_drop_Suc)
  show ?case
    apply (subst issueLoop.simps)
    using lt s k d by (auto simp: Let_def keys_map_set)
qed

lemma keys_step: "(a::int) \<le> b \<Longrightarrow> K' = insert a K \<union> {a + 1 .. b} \<Longrightarrow> K' = K \<union> {a .. b}"
  by auto

lemma keys_last: "K' = insert (a::int) K \<Longrightarrow> K' = K \<union> {a .. a}"
  by auto

lemma issueLoop_True:
  "sorted_wrt (<) (map iid suf) \<Longrightarrow> \<forall>x\<in>set suf. int (length pre) < iid x \<Longrightarrow>
   \<exists>issues' im'. issueLoop True (length pre) (pre @ suf) im = Some (issues', im') \<and>
     set (map_keys im') = set (map_keys im) \<union>
        (if suf = [] then {} else {int (length pre) + 1 .. iid (last suf)})"
proof (induction "gap (length pre) suf" arbitrary: pre suf im rule: less_induct)
  case less
  show ?case
  proof (cases suf)
    case Nil
    then show ?thesis by (subst issueLoop.simps) simp
  next
    case (Cons x suf')
    define e where "e = int (length pre) + 1"
    have ne: "suf \<noteq> []" using Cons by simp
    have xg: "e \<le> iid x" using less.prems(2) Cons by (simp add: e_def)
    have lastge: "iid x \<le> iid (last suf)"
      using less.prems(1) Cons by (cases "suf' = []") (auto simp: less_imp_le)
    show ?thesis
    proof (cases "iid x = e")
      case True
      let ?pre = "pre @ [x]"
      let ?im = "map_set (iid x) e im"
      have len: "int (length ?pre) = e" by (simp add: e_def)
      have s1: "sorted_wrt (<) (map iid suf')" using less.prems(1) Cons by simp
      have s2: "\<forall>y\<in>set suf'. int (length ?pre) < iid y"
        using less.prems(1) Cons True len by auto
      have g: "gap (length ?pre) suf' < gap (length pre) suf"
      proof (cases "suf' = []")
        case True
        then show ?thesis using Cons xg by (simp add: gap_def e_def)
      next
        case False
        have "last suf' \<in> set suf'" using False by simp
        with s2 have "int (length ?pre) < iid (last suf')" by blast
        moreover have "last suf = last suf'" using Cons False by simp
        ultimately show ?thesis using Cons False
          by (cases suf') (simp_all add: gap_def)
      qed
      from less.hyps[OF g s1 s2, of ?im]
      obtain issues' im' where r: "issueLoop True (length ?pre) (?pre @ suf') ?im = Some (issues', im')"
        and k: "set (map_keys im') = set (map_keys ?im) \<union>
          (if suf' = [] then {} else {int (length ?pre) + 1 .. iid (last suf')})" by blast
      have step: "issueLoop True (length pre) (pre @ suf) im
            = issueLoop True (length ?pre) (?pre @ suf') ?im"
        by (subst issueLoop.simps) (simp add: Cons True Let_def e_def[symmetric])
      have keys: "set (map_keys im') = set (map_keys im) \<union> {e .. iid (last suf)}"
      proof (cases "suf' = []")
        case True
        have "set (map_keys im') = insert e (set (map_keys im))"
          using k True \<open>iid x = e\<close> by (simp add: keys_map_set)
        then have "set (map_keys im') = set (map_keys im) \<union> {e .. e}" by (rule keys_last)
        then show ?thesis using True Cons \<open>iid x = e\<close> by simp
      next
        case False
        have L: "last suf = last suf'" using Cons False by simp
        have "set (map_keys im') = insert e (set (map_keys im)) \<union> {e + 1 .. iid (last suf)}"
          using k[unfolded len] False L \<open>iid x = e\<close> by (simp add: keys_map_set)
        moreover have "e \<le> iid (last suf)" using lastge xg by simp
        ultimately show ?thesis by (rule keys_step[rotated])
      qed
      show ?thesis using step r keys ne by (simp add: e_def)
    next
      case False
      then have gt: "e < iid x" using xg by simp
      let ?p = "asGitLabItem (createPlaceholderData x e)"
      let ?pre = "pre @ [?p]"
      let ?im = "map_set e e im"
      have len: "int (length ?pre) = e" by (simp add: e_def)
      have s2: "\<forall>y\<in>set suf. int (length ?pre) < iid y"
      proof
        fix y assume "y \<in> set suf"
        then have "iid x \<le> iid y" using less.prems(1) Cons by (auto simp: less_imp_le)
        then show "int (length ?pre) < iid y" using gt len by simp
      qed
      have g: "gap (length ?pre) suf < gap (length pre) suf"
        using Cons gt lastge by (simp add: gap_def e_def)
      from less.hyps[OF g less.prems(1) s2, of ?im]
      obtain issues' im' where r: "issueLoop True (length ?pre) (?pre @ suf) ?im = Some (issues', im')"
        and k: "set (map_keys im') = set (map_keys ?im) \<union>
          (if suf = [] then {} else {int (length ?pre) + 1 .. iid (last suf)})" by blast
      have step: "issueLoop True (length pre) (pre @ suf) im
            = issueLoop True (length ?pre) (?pre @ suf) ?im"
        by (subst issueLoop.simps) (simp add: Cons False Let_def splice_def e_def[symmetric])
      have "set (map_keys im') = insert e (set (map_keys im)) \<union> {e + 1 .. iid (last suf)}"
        using k[unfolded len] ne by (simp add: keys_map_set)
      moreover have "e \<le> iid (last suf)" using gt lastge by simp
      ultimately have keys: "set (map_keys im') = set (map_keys im) \<union> {e .. iid (last suf)}"
        by (rule keys_step[rotated])
      show ?thesis using step r keys ne by (simp add: e_def)
    qed
  qed
qed

lemma mergeRequestLoop_False:
  "\<exists>im'. mergeRequestLoop False lastN i issues im = Some (issues, im') \<and>
     set (map_keys im') = set (map_keys im) \<union> iid ` set (drop i issues)"
proof (induction "length issues - i" arbitrary: i im)
  case 0
  then show ?case by (subst mergeRequestLoop.simps) simp
next
  case (Suc n)
  then have lt: "i < length issues" and n: "n = length issues - (i + 1)" by auto
  from Suc.hyps(1)[OF n, of "map_set (iid (issues ! i)) (js_add (int i + 1) lastN) im"]
  obtain im' where s: "mergeRequestLoop False lastN (i + 1) issues (map_set (iid (issues ! i)) (js_add (int i + 1) lastN) im) = Some (issues, im')"
    and k: "set (map_keys im') = set (map_keys (map_set (iid (issues ! i)) (js_add (int i + 1) lastN) im)) \<union> iid ` set (drop (i + 1) issues)"
    by blast
  have d: "drop i issues = issues ! i # drop (i + 1) issues"
    using lt by (simp add: Cons_nth_drop_Suc)
  show ?case
    apply (subst mergeRequestLoop.simps)
    using lt s k d by (auto simp: Let_def keys_map_set)
qed

lemma mergeRequestLoop_True:
  "sorted_wrt (<) (map iid suf) \<Longrightarrow> \<forall>x\<in>set suf. int (length pre) < iid x \<Longrightarrow>
   \<exists>issues' im'. mergeRequestLoop True lastN (length pre) (pre @ suf) im = Some (issues', im') \<and>
     set (map_keys im') = set (map_keys im) \<union>
        (if suf = [] then {} else {int (length pre) + 1 .. iid (last suf)})"
proof (induction "gap (length pre) suf" arbitrary: pre suf im rule: less_induct)
  case less
  show ?case
  proof (cases suf)
    case Nil
    then show ?thesis by (subst mergeRequestLoop.simps) simp
  next
    case (Cons x suf')
    define e where "e = int (length pre) + 1"
    have ne: "suf \<noteq> []" using Cons by simp
    have xg: "e \<le> iid x" using less.prems(2) Cons by (simp add: e_def)
    have lastge: "iid x \<le> iid (last suf)"
      using less.prems(1) Cons by (cases "suf' = []") (auto simp: less_imp_le)
    show ?thesis
    proof (cases "iid x = e")
      case True
      let ?pre = "pre @ [x]"
      let ?im = "map_set (iid x) (js_add e lastN) im"
      have len: "int (length ?pre) = e" by (simp add: e_def)
      have s1: "sorted_wrt (<) (map iid suf')" using less.prems(1) Cons by simp
      have s2: "\<forall>y\<in>set suf'. int (length ?pre) < iid y"
        using less.prems(1) Cons True len by auto
      have g: "gap (length ?pre) suf' < gap (length pre) suf"
      proof (cases "suf' = []")
        case True
        then show ?thesis using Cons xg by (simp add: gap_def e_def)
      next
        case False
        have "last suf' \<in> set suf'" using False by simp
        with s2 have "int (length ?pre) < iid (last suf')" by blast
        moreover have "last suf = last suf'" using Cons False by simp
        ultimately show ?thesis using Cons False
          by (cases suf') (simp_all add: gap_def)
      qed
      from less.hyps[OF g s1 s2, of ?im]
      obtain issues' im' where r: "mergeRequestLoop True lastN (length ?pre) (?pre @ suf') ?im = Some (issues', im')"
        and k: "set (map_keys im') = set (map_keys ?im) \<union>
          (if suf' = [] then {} else {int (length ?pre) + 1 .. iid (last suf')})" by blast
      have step: "mergeRequestLoop True lastN (length pre) (pre @ suf) im
            = mergeRequestLoop True lastN (length ?pre) (?pre @ suf') ?im"
        by (subst mergeRequestLoop.simps) (simp add: Cons True Let_def e_def[symmetric])
      have keys: "set (map_keys im') = set (map_keys im) \<union> {e .. iid (last suf)}"
      proof (cases "suf' = []")
        case True
        have "set (map_keys im') = insert e (set (map_keys im))"
          using k True \<open>iid x = e\<close> by (simp add: keys_map_set)
        then have "set (map_keys im') = set (map_keys im) \<union> {e .. e}" by (rule keys_last)
        then show ?thesis using True Cons \<open>iid x = e\<close> by simp
      next
        case False
        have L: "last suf = last suf'" using Cons False by simp
        have "set (map_keys im') = insert e (set (map_keys im)) \<union> {e + 1 .. iid (last suf)}"
          using k[unfolded len] False L \<open>iid x = e\<close> by (simp add: keys_map_set)
        moreover have "e \<le> iid (last suf)" using lastge xg by simp
        ultimately show ?thesis by (rule keys_step[rotated])
      qed
      show ?thesis using step r keys ne by (simp add: e_def)
    next
      case False
      then have gt: "e < iid x" using xg by simp
      let ?p = "asGitLabItem (createPlaceholderData x e)"
      let ?pre = "pre @ [?p]"
      let ?im = "map_set e (js_add e lastN) im"
      have len: "int (length ?pre) = e" by (simp add: e_def)
      have s2: "\<forall>y\<in>set suf. int (length ?pre) < iid y"
      proof
        fix y assume "y \<in> set suf"
        then have "iid x \<le> iid y" using less.prems(1) Cons by (auto simp: less_imp_le)
        then show "int (length ?pre) < iid y" using gt len by simp
      qed
      have g: "gap (length ?pre) suf < gap (length pre) suf"
        using Cons gt lastge by (simp add: gap_def e_def)
      from less.hyps[OF g less.prems(1) s2, of ?im]
      obtain issues' im' where r: "mergeRequestLoop True lastN (length ?pre) (?pre @ suf) ?im = Some (issues', im')"
        and k: "set (map_keys im') = set (map_keys ?im) \<union>
          (if suf = [] then {} else {int (length ?pre) + 1 .. iid (last suf)})" by blast
      have step: "mergeRequestLoop True lastN (length pre) (pre @ suf) im
            = mergeRequestLoop True lastN (length ?pre) (?pre @ suf) ?im"
        by (subst mergeRequestLoop.simps) (simp add: Cons False Let_def splice_def e_def[symmetric])
      have "set (map_keys im') = insert e (set (map_keys im)) \<union> {e + 1 .. iid (last suf)}"
        using k[unfolded len] ne by (simp add: keys_map_set)
      moreover have "e \<le> iid (last suf)" using gt lastge by simp
      ultimately have keys: "set (map_keys im') = set (map_keys im) \<union> {e .. iid (last suf)}"
        by (rule keys_step[rotated])
      show ?thesis using step r keys ne by (simp add: e_def)
    qed
  qed
qed


lemma sorted_last_Max: "sorted xs \<Longrightarrow> xs \<noteq> [] \<Longrightarrow> last xs = Max (set (xs::int list))"
proof -
  assume s: "sorted xs" and ne: "xs \<noteq> []"
  have "\<forall>y\<in>set xs. y \<le> last xs"
    using s by (induction xs) auto
  moreover have "last xs \<in> set xs" using ne by simp
  ultimately show ?thesis by (intro Max_eqI[symmetric]) auto
qed

lemma sort_key_iid_strict:
  fixes xs :: "GitLabItem list"
  assumes "distinct (map iid xs)"
  shows "sorted_wrt (<) (map iid (sort_key iid xs))"
proof -
  have "distinct (map iid (sort_key iid xs))"
    using assms by (simp add: distinct_map)
  then show ?thesis by (simp add: strict_sorted_iff)
qed

lemma last_sort_key_iid:
  fixes xs :: "GitLabItem list"
  assumes "xs \<noteq> []"
  shows "iid (last (sort_key iid xs)) = Max (iid ` set xs)"
proof -
  have ne: "sort_key iid xs \<noteq> []" using assms by (metis length_0_conv length_sort)
  have "iid (last (sort_key iid xs)) = last (map iid (sort_key iid xs))"
    using ne by (simp add: last_map)
  also have "\<dots> = Max (set (map iid (sort_key iid xs)))"
    using ne by (intro sorted_last_Max) simp_all
  finally show ?thesis by simp
qed

lemma transferIssues_True:
  assumes "issues \<noteq> []" "distinct (map iid issues)" "\<forall>x\<in>set issues. 1 \<le> iid x"
  shows "\<exists>issues' im. transferIssues True issues = Some (issues', im) \<and>
           set (map_keys im) = {1 .. Max (iid ` set issues)}"
proof -
  have ne: "sort_key iid issues \<noteq> []" using assms(1) by (metis length_0_conv length_sort)
  have pos: "\<forall>x\<in>set (sort_key iid issues). int (length ([]::GitLabItem list)) < iid x"
    using assms(3) by auto
  from issueLoop_True[OF sort_key_iid_strict[OF assms(2)] pos, of "[]"]
  show ?thesis using ne last_sort_key_iid[OF assms(1)] by (simp add: transferIssues_def)
qed

lemma transferIssues_False:
  "\<exists>issues' im. transferIssues False issues = Some (issues', im) \<and>
     set (map_keys im) = iid ` set issues"
  using issueLoop_False[of 0 "sort_key iid issues" "[]"]
  by (auto simp: transferIssues_def)

lemma transferMergeRequests_True:
  assumes "issueMap conv = Some ism" "mrs \<noteq> []" "distinct (map iid mrs)" "\<forall>x\<in>set mrs. 1 \<le> iid x"
  shows "\<exists>mrs' m. transferMergeRequests conv True mrs = Some (Inr (mrs', m)) \<and>
           set (map_keys m) = {1 .. Max (iid ` set mrs)}"
proof -
  have ne: "sort_key iid mrs \<noteq> []" using assms(2) by (metis length_0_conv length_sort)
  have pos: "\<forall>x\<in>set (sort_key iid mrs). int (length ([]::GitLabItem list)) < iid x"
    using assms(4) by auto
  from mergeRequestLoop_True[OF sort_key_iid_strict[OF assms(3)] pos, of "Math_max (map_values ism)" "[]"]
  show ?thesis using ne last_sort_key_iid[OF assms(2)] assms(1)
    by (simp add: transferMergeRequests_def)
qed

lemma transferMergeRequests_False:
  assumes "issueMap conv = Some ism"
  shows "\<exists>mrs' m. transferMergeRequests conv False mrs = Some (Inr (mrs', m)) \<and>
     set (map_keys m) = iid ` set mrs"
  using mergeRequestLoop_False[of "Math_max (map_values ism)" 0 "sort_key iid mrs" "[]"] assms
  by (auto simp: transferMergeRequests_def)



text \<open>
  The loops that create the entities (\<open>transferIssues\<close>, \<open>transferMergeRequests\<close>)
  splice a placeholder into the sequence at every gap: for pairwise different \<open>iid\<close>s
  from 1 on, with placeholder mode on they end and every integer from 1 to the largest
  \<open>iid\<close> is a key, and these are all the keys. With placeholder mode off the keys of
  their maps, and of the map of \<open>buildMergeRequestMap\<close>, are exactly the source
  \<open>iid\<close>s. The keys of the milestone map of \<open>buildMilestoneMap\<close> are the source \<open>iid\<close>s
  in both modes, and the keys of the map of \<open>buildIssueMap\<close> are the destination issue
  numbers.
\<close>

lemma transfer_loops_keys:
  fixes issues mrs :: "GitLabItem list"
  shows
  "(issues \<noteq> [] \<and> distinct (map iid issues) \<and> (\<forall>x\<in>set issues. 1 \<le> iid x) \<longrightarrow>
      (\<exists>issues' im. transferIssues True issues = Some (issues', im) \<and>
         set (map_keys im) = {1 .. Max (iid ` set issues)})) \<and>
   (\<exists>issues' im. transferIssues False issues = Some (issues', im) \<and>
         set (map_keys im) = iid ` set issues) \<and>
   (issueMap conv = Some ism \<and> mrs \<noteq> [] \<and> distinct (map iid mrs) \<and>
      (\<forall>x\<in>set mrs. 1 \<le> iid x) \<longrightarrow>
      (\<exists>mrs' m. transferMergeRequests conv True mrs = Some (Inr (mrs', m)) \<and>
         set (map_keys m) = {1 .. Max (iid ` set mrs)})) \<and>
   (issueMap conv = Some ism \<longrightarrow>
      (\<exists>mrs' m. transferMergeRequests conv False mrs = Some (Inr (mrs', m)) \<and>
         set (map_keys m) = iid ` set mrs) \<and>
      (\<exists>m. buildMergeRequestMap conv False mrs = Inr m \<and> set (map_keys m) = iid ` set mrs)) \<and>
   set (map_keys (buildMilestoneMap up githubMilestones gitlabMilestones))
     = iid ` set gitlabMilestones \<and>
   set (map_keys (buildIssueMap up githubIssueNumbers gitlabIssues)) = set githubIssueNumbers"
proof -
  have a: "issues \<noteq> [] \<and> distinct (map iid issues) \<and> (\<forall>x\<in>set issues. 1 \<le> iid x) \<longrightarrow>
      (\<exists>issues' im. transferIssues True issues = Some (issues', im) \<and>
         set (map_keys im) = {1 .. Max (iid ` set issues)})"
    using transferIssues_True by blast
  have c: "issueMap conv = Some ism \<and> mrs \<noteq> [] \<and> distinct (map iid mrs) \<and>
      (\<forall>x\<in>set mrs. 1 \<le> iid x) \<longrightarrow>
      (\<exists>mrs' m. transferMergeRequests conv True mrs = Some (Inr (mrs', m)) \<and>
         set (map_keys m) = {1 .. Max (iid ` set mrs)})"
    using transferMergeRequests_True by blast
  have d: "issueMap conv = Some ism \<longrightarrow>
      (\<exists>mrs' m. transferMergeRequests conv False mrs = Some (Inr (mrs', m)) \<and>
         set (map_keys m) = iid ` set mrs)"
    using transferMergeRequests_False by blast
  have e: "issueMap conv = Some ism \<longrightarrow>
      (\<exists>m. buildMergeRequestMap conv False mrs = Inr m \<and> set (map_keys m) = iid ` set mrs)"
  proof
    assume i: "issueMap conv = Some ism"
    then obtain m where m: "buildMergeRequestMap conv False mrs = Inr m"
      by (simp add: buildMergeRequestMap_def)
    with keys_buildMergeRequestMap_False[OF m] show
      "\<exists>m. buildMergeRequestMap conv False mrs = Inr m \<and> set (map_keys m) = iid ` set mrs"
      by blast
  qed
  show ?thesis
    using a transferIssues_False[of issues] c d e
      keys_buildMilestoneMap[of up githubMilestones gitlabMilestones]
      keys_buildIssueMap[of up githubIssueNumbers gitlabIssues]
    by blast
qed


lemma iid_gitlabItem: "iid (gitlabItem n t) = n"
  by (simp add: gitlabItem_def asGitLabItem_def simpleItem_def)

lemma transferIssues_gap:
  "map_option (\<lambda>r. map_keys (snd r))
     (transferIssues True [gitlabItem 1 ''first'', gitlabItem 3 ''third'']) = Some [1, 2, 3]"
  unfolding transferIssues_def
  apply (simp add: iid_gitlabItem)
  apply (subst issueLoop.simps, simp add: iid_gitlabItem)
  apply (subst issueLoop.simps,
      simp add: iid_gitlabItem splice_def asGitLabItem_def createPlaceholderData_def)
  apply (subst issueLoop.simps,
      simp add: iid_gitlabItem splice_def asGitLabItem_def createPlaceholderData_def)
  apply (subst issueLoop.simps,
      simp add: iid_gitlabItem splice_def asGitLabItem_def createPlaceholderData_def map_keys_def)
  done

lemma transferMergeRequests_gap:
  "map_option (map_sum id (\<lambda>r. snd r))
     (transferMergeRequests
        \<lparr>milestoneMap = None, issueMap = Some [(1, 1)], mrMap = None, attachmentMap = []\<rparr> True
        [gitlabItem 1 ''first'', gitlabItem 3 ''third''])
   = Some (Inr [(1, Finite 2), (2, Finite 3), (3, Finite 4)])"
  unfolding transferMergeRequests_def
  apply (simp add: iid_gitlabItem Math_max_def map_values_def)
  apply (subst mergeRequestLoop.simps, simp add: iid_gitlabItem)
  apply (subst mergeRequestLoop.simps,
      simp add: iid_gitlabItem splice_def asGitLabItem_def createPlaceholderData_def)
  apply (subst mergeRequestLoop.simps,
      simp add: iid_gitlabItem splice_def asGitLabItem_def createPlaceholderData_def)
  apply (subst mergeRequestLoop.simps,
      simp add: iid_gitlabItem splice_def asGitLabItem_def createPlaceholderData_def)
  done

text \<open>
  C1. The source has the entities 1 and 3 (number 2 was deleted), the destination is
  empty and placeholder mode is on, so the claim wants the keys 1, 2 and 3. The issue
  map of \<open>buildIssueMap\<close> is empty: it reads the GitLab issues and does not use them.
  The merge-request map of \<open>buildMergeRequestMap\<close> has the keys 1 and 2 only: at the gap
  it sets the placeholder's key and goes on to the next merge request, so the real merge
  request 3 gets no entry. The loops of \<open>transferIssues\<close> and \<open>transferMergeRequests\<close>,
  which splice the placeholder into the list, give the keys 1, 2 and 3 on the same
  input. The milestone map of \<open>buildMilestoneMap\<close> has the keys 1 and 3.
\<close>

theorem map_builders_miss_keys:
  "buildIssueMap True [] [gitlabItem 1 ''first'', gitlabItem 3 ''third''] = [] \<and>
   map_option (\<lambda>r. map_keys (snd r))
     (transferIssues True [gitlabItem 1 ''first'', gitlabItem 3 ''third'']) = Some [1, 2, 3] \<and>
   buildMergeRequestMap
       \<lparr>milestoneMap = None, issueMap = Some [(1, 1)], mrMap = None, attachmentMap = []\<rparr> True
       [gitlabItem 1 ''first'', gitlabItem 3 ''third''] = Inr [(1, Finite 2), (2, Finite 3)] \<and>
   map_option (map_sum id (\<lambda>r. snd r))
     (transferMergeRequests
        \<lparr>milestoneMap = None, issueMap = Some [(1, 1)], mrMap = None, attachmentMap = []\<rparr> True
        [gitlabItem 1 ''first'', gitlabItem 3 ''third''])
     = Some (Inr [(1, Finite 2), (2, Finite 3), (3, Finite 4)]) \<and>
   map_keys (buildMilestoneMap True [] [gitlabItem 1 ''first'', gitlabItem 3 ''third'']) = [1, 3]"
proof -
  have i: "buildIssueMap True [] [gitlabItem 1 ''first'', gitlabItem 3 ''third''] = []"
    by (simp add: buildIssueMap_def)
  have m: "buildMergeRequestMap
       \<lparr>milestoneMap = None, issueMap = Some [(1, 1)], mrMap = None, attachmentMap = []\<rparr> True
       [gitlabItem 1 ''first'', gitlabItem 3 ''third''] = Inr [(1, Finite 2), (2, Finite 3)]"
    by (simp add: buildMergeRequestMap_def iid_gitlabItem Math_max_def map_values_def)
  have ms: "map_keys (buildMilestoneMap True [] [gitlabItem 1 ''first'', gitlabItem 3 ''third''])
      = [1, 3]"
    by (simp add: buildMilestoneMap_def findMilestone_def iid_gitlabItem map_keys_def)
  from i transferIssues_gap m transferMergeRequests_gap ms show ?thesis by (intro conjI)
qed

section \<open>Numbers of the merge-request map\<close>

lemma Math_max_Finite: "xs \<noteq> [] \<Longrightarrow> \<exists>n. Math_max xs = Finite n \<and> n \<in> set xs \<and> (\<forall>x\<in>set xs. x \<le> n)"
proof -
  have f: "\<And>a. \<exists>n. foldl js_max (Finite a) (map Finite xs) = Finite n \<and>
             n \<in> insert a (set xs) \<and> (\<forall>x\<in>insert a (set xs). x \<le> n)" for xs
  proof (induction xs)
    case Nil
    then show ?case by simp
  next
    case (Cons y ys)
    from Cons[of "max a y"] show ?case by (auto simp: max_def split: if_splits)
  qed
  assume "xs \<noteq> []"
  then obtain y ys where xs: "xs = y # ys" by (cases xs) auto
  from f[of y ys] show ?thesis by (auto simp: Math_max_def xs)
qed

lemma set_map_set: "set (map_set k v m) \<subseteq> insert (k, v) (set m)"
  by (induction m) (auto split: if_splits)

lemma mrLoop_values:
  "0 \<le> i \<Longrightarrow> \<forall>(k, v)\<in>set m. js_less lst v \<Longrightarrow> lst = Finite n \<Longrightarrow>
   \<forall>(k, v)\<in>set (mrLoop up lst i mrs m). js_less lst v"
proof (induction mrs arbitrary: i m)
  case Nil
  then show ?case by simp
next
  case (Cons mr rest)
  have v: "js_less lst (js_add (i + 1) lst)" using Cons.prems by simp
  have a: "\<forall>(k, v)\<in>set (map_set k' (js_add (i + 1) lst) m). js_less lst v" for k'
    using set_map_set[of k' "js_add (i + 1) lst" m] Cons.prems(2) v by auto
  have i: "0 \<le> i + 1" using Cons.prems(1) by simp
  show ?case
    using Cons.IH[OF i a Cons.prems(3)] by (simp add: Let_def)
qed

lemma mr_numbers_after_issues:
  assumes "issueMap conv = Some im" "im \<noteq> []" "buildMergeRequestMap conv up mrs = Inr m"
    "map_get k m = Some v"
  shows "js_less (Math_max (map_values im)) v"
proof -
  obtain n where n: "Math_max (map_values im) = Finite n"
    using Math_max_Finite[of "map_values im"] assms(2) by (auto simp: map_values_def)
  have m: "m = mrLoop up (Math_max (map_values im)) 0 (sort_key iid mrs) []"
    using assms(1,3) by (simp add: buildMergeRequestMap_def)
  have "\<forall>(k, v)\<in>set m. js_less (Math_max (map_values im)) v"
    unfolding m by (rule mrLoop_values[OF _ _ n]) simp_all
  moreover have "(k, v) \<in> set m" using assms(4) by (simp add: map_get_def map_of_SomeD)
  ultimately show ?thesis by blast
qed

text \<open>
  C2. With an issue map that has entries every number of the merge-request map is
  above the largest issue number (\<open>mr_numbers_after_issues\<close>). With an empty issue map
  the claim wants the numbering to start at 1; the code takes \<open>Math.max\<close> of no
  arguments, \<open>-Infinity\<close>, and every merge request is mapped to \<open>-Infinity\<close>, which a
  rewritten reference prints as \<open>#-Infinity\<close>.
\<close>

theorem mr_map_of_empty_issue_map:
  "buildMergeRequestMap \<lparr>milestoneMap = None, issueMap = Some [], mrMap = None, attachmentMap = []\<rparr> False
       [simpleItem 1 ''first'', simpleItem 2 ''second'']
     = Inr [(1, NegInfinity), (2, NegInfinity)] \<and>
   showNumber NegInfinity = ''-Infinity''"
  by (simp add: buildMergeRequestMap_def Math_max_def map_values_def simpleItem_def)

section \<open>The merge-request map needs the issue map\<close>

text \<open>
  C6. Called on a converter without issue map, \<open>buildMergeRequestMap\<close> fails with the
  error \<open>issueMap not initialised\<close>; \<open>migrate\<close> then ends with exit code 1 and has entered
  no transfer phase. Nothing retries the call.
\<close>

theorem mr_map_needs_issue_map:
  "issueMap conv = None \<Longrightarrow>
     buildMergeRequestMap conv up mrs = Inl (Error ''issueMap not initialised'') \<and>
     migrate conv registered transfer logMergeRequests upMilestones upIssues up
       githubMilestones gitlabMilestones githubIssueNumbers gitlabIssues mrs = (Exit 1, [])"
  by (simp add: buildMergeRequestMap_def migrate_def buildMaps_def)

theorem mr_map_needs_issue_map_witness:
  "buildMergeRequestMap \<lparr>milestoneMap = None, issueMap = None, mrMap = None, attachmentMap = []\<rparr> True
       [gitlabItem 1 ''a''] = Inl (Error ''issueMap not initialised'') \<and>
   migrate \<lparr>milestoneMap = None, issueMap = None, mrMap = None, attachmentMap = []\<rparr> True (\<lambda>p. True) False
       True True True [] [] [] [] [gitlabItem 1 ''a''] = (Exit 1, [])"
  using mr_map_needs_issue_map[of "\<lparr>milestoneMap = None, issueMap = None, mrMap = None, attachmentMap = []\<rparr>"
      True "[gitlabItem 1 ''a'']" True "\<lambda>p. True" False True True "[]" "[]" "[]" "[]"]
  by simp

section \<open>Facts about the replacement passes\<close>

lemma replaceFrom_offset:
  "replaceFrom re (\<lambda>g off. f g) off prev s = replaceFrom re (\<lambda>g off. f g) 0 prev s"
proof (induction "length s" arbitrary: s off prev rule: less_induct)
  case less
  show ?case
  proof (cases s)
    case Nil
    then show ?thesis by simp
  next
    case (Cons c cs)
    show ?thesis
    proof (cases "re prev (c # cs)")
      case None
      have "length cs < length s" using Cons by simp
      then have "replaceFrom re (\<lambda>g off. f g) (off + 1) (Some c) cs = replaceFrom re (\<lambda>g off. f g) 0 (Some c) cs"
        "replaceFrom re (\<lambda>g off. f g) (0 + 1) (Some c) cs = replaceFrom re (\<lambda>g off. f g) 0 (Some c) cs"
        by (rule less.hyps)+
      then show ?thesis using None Cons by simp
    next
      case (Some gm)
      obtain g m where gm: "gm = (g, m)" by (cases gm)
      show ?thesis
      proof (cases "m = []")
        case True
        have "length cs < length s" using Cons by simp
        then have "replaceFrom re (\<lambda>g off. f g) (off + 1) (Some c) cs = replaceFrom re (\<lambda>g off. f g) 0 (Some c) cs"
          "replaceFrom re (\<lambda>g off. f g) (0 + 1) (Some c) cs = replaceFrom re (\<lambda>g off. f g) 0 (Some c) cs"
          by (rule less.hyps)+
        then show ?thesis using Some gm True Cons by simp
      next
        case False
        let ?r = "drop (length m) (c # cs)"
        have l: "length ?r < length s" using False Cons by simp
        from l have "replaceFrom re (\<lambda>g off. f g) (off + length m) (Some (last m)) ?r
              = replaceFrom re (\<lambda>g off. f g) 0 (Some (last m)) ?r"
          "replaceFrom re (\<lambda>g off. f g) (0 + length m) (Some (last m)) ?r
              = replaceFrom re (\<lambda>g off. f g) 0 (Some (last m)) ?r"
          by (rule less.hyps)+
        then show ?thesis using Some gm False Cons by simp
      qed
    qed
  qed
qed

lemma replaceFrom_prefix:
  "noMatchIn re prev pre rest \<Longrightarrow> pre \<noteq> [] \<Longrightarrow>
   replaceFrom re f off prev (pre @ rest)
     = pre @ replaceFrom re f (off + length pre) (Some (last pre)) rest"
proof (induction pre arbitrary: prev off)
  case Nil
  then show ?case by simp
next
  case (Cons c cs)
  show ?case
  proof (cases "cs = []")
    case True
    then show ?thesis using Cons.prems by simp
  next
    case False
    have "noMatchIn re (Some c) cs rest" using Cons.prems by simp
    from Cons.IH[OF this False, of "off + 1"] show ?thesis
      using Cons.prems False by simp
  qed
qed

lemma isDigit_isWordChar: "isDigit c \<Longrightarrow> isWordChar c"
  by (auto simp: isDigit_def isWordChar_def)

lemma takeWhile_stop:
  "\<not> P c \<Longrightarrow> takeWhile P (xs @ c # ys) = takeWhile P xs"
  by (induction xs) auto

lemma takeWhile_all: "\<forall>d\<in>set ds. P d \<Longrightarrow> (rest = [] \<or> \<not> P (hd rest)) \<Longrightarrow> takeWhile P (ds @ rest) = ds"
  by (induction ds) (auto simp: takeWhile_eq_Nil_iff neq_Nil_conv)

lemma takeWhile_none: "rest = [] \<or> \<not> P (hd rest) \<Longrightarrow> takeWhile P rest = []"
  by (cases rest) auto

lemma numberRef_stop:
  "\<not> isDigit c \<Longrightarrow>
   numberRefRegex g prev (a # xs @ c # ys) = numberRefRegex g prev (a # xs @ [c])"
  by (simp add: numberRefRegex_def matchDigits_def takeWhile_stop)

lemma numberRef_matched:
  "numberRefRegex g prev (a # s) = Some (x, m) \<Longrightarrow>
     x = takeWhile isDigit s \<and> x \<noteq> [] \<and> m = a # x"
  by (auto simp: numberRefRegex_def matchDigits_def Let_def split: if_splits)

lemma numberRef_decompose:
  assumes c: "\<not> isWordChar c" and g: "\<not> isDigit g"
    and ds: "ds \<noteq> []" "\<forall>d\<in>set ds. isDigit d" and rest: "rest = [] \<or> \<not> isDigit (hd rest)"
  shows "replaceFrom (numberRefRegex g) (\<lambda>x off. f x) 0 prev (pre @ c # g # ds @ rest)
     = replaceFrom (numberRefRegex g) (\<lambda>x off. f x) 0 prev (pre @ [c]) @ f ds @
       replaceFrom (numberRefRegex g) (\<lambda>x off. f x) 0 (Some (last ds)) rest"
proof (induction "length pre" arbitrary: pre prev rule: less_induct)
  case less
  let ?R = "numberRefRegex g"
  let ?F = "\<lambda>x (off::nat). f x"
  let ?X = "g # ds @ rest"
  have cd: "\<not> isDigit c" using c isDigit_isWordChar by blast
  have o: "\<And>off p s. replaceFrom ?R ?F off p s = replaceFrom ?R ?F 0 p s"
    by (rule replaceFrom_offset)
  show ?case
  proof (cases pre)
    case Nil
    have n1: "?R prev (c # ?X) = None"
      using g by (simp add: numberRefRegex_def matchDigits_def)
    have n2: "?R prev [c] = None"
      by (simp add: numberRefRegex_def matchDigits_def)
    have m: "?R (Some c) (g # ds @ rest) = Some (ds, g # ds)"
      using c ds takeWhile_none[of rest isDigit] rest
      by (simp add: numberRefRegex_def matchDigits_def nonWordBefore_def)
    show ?thesis
      using n1 n2 m ds o[of "Suc 0"] o[of "Suc (length ds)"] o[of "Suc (Suc (length ds))"]
      by (simp add: Nil)
  next
    case (Cons a pre')
    have eq: "?R prev (a # pre' @ c # ?X) = ?R prev (a # pre' @ [c])"
      using cd by (rule numberRef_stop)
    show ?thesis
    proof (cases "?R prev (a # pre' @ [c])")
      case None
      have "length pre' < length pre" using Cons by simp
      then have ih: "replaceFrom ?R ?F 0 (Some a) (pre' @ c # ?X)
         = replaceFrom ?R ?F 0 (Some a) (pre' @ [c]) @ f ds @ replaceFrom ?R ?F 0 (Some (last ds)) rest"
        by (rule less.hyps)
      show ?thesis
        using None eq ih o[of "Suc 0"] by (simp add: Cons)
    next
      case (Some xm)
      obtain x m where xm: "xm = (x, m)" by (cases xm)
      from numberRef_matched[OF Some[unfolded xm]]
      have x: "x = takeWhile isDigit (pre' @ [c])" "x \<noteq> []" "m = a # x" by auto
      have xp: "x = takeWhile isDigit pre'"
        using x(1) cd takeWhile_stop[of isDigit c pre' "[]"] by simp
      then have le: "length x \<le> length pre'" by (simp add: length_takeWhile_le)
      let ?p = "drop (length x) pre'"
      have d1: "drop (length m) (a # pre' @ c # ?X) = ?p @ c # ?X"
        using x(3) le by simp
      have d2: "drop (length m) (a # pre' @ [c]) = ?p @ [c]"
        using x(3) le by simp
      have "length ?p < length pre" using Cons by simp
      then have ih: "replaceFrom ?R ?F 0 (Some (last m)) (?p @ c # ?X)
         = replaceFrom ?R ?F 0 (Some (last m)) (?p @ [c]) @ f ds @ replaceFrom ?R ?F 0 (Some (last ds)) rest"
        by (rule less.hyps)
      have mne: "m \<noteq> []" using x(3) by simp
      have l: "replaceFrom ?R ?F 0 prev (a # pre' @ c # ?X)
            = f x @ replaceFrom ?R ?F 0 (Some (last m)) (?p @ c # ?X)"
        using Some eq xm mne d1 o[of "length m"] by simp
      have r: "replaceFrom ?R ?F 0 prev (a # pre' @ [c])
            = f x @ replaceFrom ?R ?F 0 (Some (last m)) (?p @ [c])"
        using Some xm mne d2 o[of "length m"] by simp
      show ?thesis using l r ih by (simp add: Cons)
    qed
  qed
qed

lemma numberRef_alone:
  "\<not> isDigit c \<Longrightarrow>
   numberRefRegex g prev (a # xs @ c # ys) = numberRefRegex g prev (a # xs)"
  using takeWhile_stop[of isDigit c xs ys]
  by (simp add: numberRefRegex_def matchDigits_def)

lemma numberRef_append:
  assumes c: "\<not> isDigit c" "c \<noteq> g"
  shows "replaceFrom (numberRefRegex g) (\<lambda>x off. f x) 0 prev (X @ c # Z)
     = replaceFrom (numberRefRegex g) (\<lambda>x off. f x) 0 prev X @
       c # replaceFrom (numberRefRegex g) (\<lambda>x off. f x) 0 (Some c) Z"
proof (induction "length X" arbitrary: X prev rule: less_induct)
  case less
  let ?R = "numberRefRegex g"
  let ?F = "\<lambda>x (off::nat). f x"
  have o: "\<And>off p s. replaceFrom ?R ?F off p s = replaceFrom ?R ?F 0 p s"
    by (rule replaceFrom_offset)
  show ?case
  proof (cases X)
    case Nil
    have "?R prev (c # Z) = None" using c(2) by (simp add: numberRefRegex_def)
    then show ?thesis using o[of "Suc 0"] by (simp add: Nil)
  next
    case (Cons a X')
    have eq: "?R prev (a # X' @ c # Z) = ?R prev (a # X')"
      using c(1) by (rule numberRef_alone)
    show ?thesis
    proof (cases "?R prev (a # X')")
      case None
      have "length X' < length X" using Cons by simp
      then have ih: "replaceFrom ?R ?F 0 (Some a) (X' @ c # Z)
         = replaceFrom ?R ?F 0 (Some a) X' @ c # replaceFrom ?R ?F 0 (Some c) Z"
        by (rule less.hyps)
      show ?thesis using None eq ih o[of "Suc 0"] by (simp add: Cons)
    next
      case (Some xm)
      obtain x m where xm: "xm = (x, m)" by (cases xm)
      from numberRef_matched[OF Some[unfolded xm]]
      have x: "x = takeWhile isDigit X'" "x \<noteq> []" "m = a # x" by auto
      have le: "length x \<le> length X'" using x(1) by (simp add: length_takeWhile_le)
      let ?p = "drop (length x) X'"
      have d1: "drop (length m) (a # X' @ c # Z) = ?p @ c # Z" using x(3) le by simp
      have d2: "drop (length m) (a # X') = ?p" using x(3) by simp
      have "length ?p < length X" using Cons by simp
      then have ih: "replaceFrom ?R ?F 0 (Some (last m)) (?p @ c # Z)
         = replaceFrom ?R ?F 0 (Some (last m)) ?p @ c # replaceFrom ?R ?F 0 (Some c) Z"
        by (rule less.hyps)
      have mne: "m \<noteq> []" using x(3) by simp
      have l: "replaceFrom ?R ?F 0 prev (a # X' @ c # Z)
            = f x @ replaceFrom ?R ?F 0 (Some (last m)) (?p @ c # Z)"
        using Some eq xm mne d1 o[of "length m"] by simp
      have r: "replaceFrom ?R ?F 0 prev (a # X')
            = f x @ replaceFrom ?R ?F 0 (Some (last m)) ?p"
        using Some xm mne d2 o[of "length m"] by simp
      show ?thesis using l r ih by (simp add: Cons)
    qed
  qed
qed

lemma noMatchIn_append:
  "noMatchIn re prev (u @ v) rest
     = (noMatchIn re prev u (v @ rest) \<and>
        noMatchIn re (if u = [] then prev else Some (last u)) v rest)"
  by (induction u arbitrary: prev) auto

lemma noMatchIn_numberRef: "g \<notin> set u \<Longrightarrow> noMatchIn (numberRefRegex g) prev u rest"
  by (induction u arbitrary: prev) (auto simp: numberRefRegex_def)

lemma noMatchIn_numberRef_rest:
  "\<not> isDigit c \<Longrightarrow> noMatchIn (numberRefRegex g) prev u [c] \<Longrightarrow>
   noMatchIn (numberRefRegex g) prev u (c # Y)"
proof (induction u arbitrary: prev)
  case Nil
  then show ?case by simp
next
  case (Cons a u)
  have "numberRefRegex g prev (a # u @ c # Y) = numberRefRegex g prev (a # u @ [c])"
    using Cons.prems(1) by (rule numberRef_stop)
  then show ?case using Cons by simp
qed

lemma matchAllFrom_offsets:
  "sorted_wrt (<) (map snd (matchAllFrom re off prev s)) \<and>
   (\<forall>j\<in>set (map snd (matchAllFrom re off prev s)). off \<le> j)"
proof (induction "length s" arbitrary: s off prev rule: less_induct)
  case less
  show ?case
  proof (cases s)
    case Nil
    then show ?thesis by simp
  next
    case (Cons c cs)
    have l1: "length cs < length s" using Cons by simp
    note ih1 = less.hyps[OF l1, of "off + 1" "Some c"]
    show ?thesis
    proof (cases "re prev (c # cs)")
      case None
      then show ?thesis using ih1 Cons by auto
    next
      case (Some gm)
      obtain g m where gm: "gm = (g, m)" by (cases gm)
      show ?thesis
      proof (cases "m = []")
        case True
        then show ?thesis using ih1 Cons Some gm by auto
      next
        case False
        let ?r = "drop (length m) (c # cs)"
        have l: "length ?r < length s" using False Cons by simp
        have pos: "0 < length m" using False by simp
        note ih = less.hyps[OF l, of "off + length m" "Some (last m)"]
        have e: "matchAllFrom re off prev s
           = (g, off) # matchAllFrom re (off + length m) (Some (last m)) ?r"
          using Cons Some gm False by simp
        have a: "\<forall>j\<in>set (map snd (matchAllFrom re (off + length m) (Some (last m)) ?r)). off < j"
        proof
          fix j
          assume "j \<in> set (map snd (matchAllFrom re (off + length m) (Some (last m)) ?r))"
          then have "off + length m \<le> j" using ih by blast
          then show "off < j" using pos by linarith
        qed
        then have b: "\<forall>j\<in>set (map snd (matchAllFrom re (off + length m) (Some (last m)) ?r)). off \<le> j"
          by (simp add: less_imp_le)
        show ?thesis
          unfolding e using ih a b by simp
      qed
    qed
  qed
qed

lemma matchAllFrom_first:
  assumes "(g, off) \<in> set (matchAllFrom re off prev X)"
  shows "\<exists>m. re prev X = Some (g, m) \<and> m \<noteq> []"
proof (cases X)
  case Nil
  then show ?thesis using assms by simp
next
  case (Cons c cs)
  have later: "(g, off) \<notin> set (matchAllFrom re (off + n) p s)" if "0 < n" for n p s
  proof
    assume "(g, off) \<in> set (matchAllFrom re (off + n) p s)"
    then have "off \<in> set (map snd (matchAllFrom re (off + n) p s))" by force
    then have "off + n \<le> off" using matchAllFrom_offsets[of re "off + n" p s] by blast
    then show False using that by simp
  qed
  show ?thesis
  proof (cases "re prev (c # cs)")
    case None
    then show ?thesis using assms Cons later[of 1 "Some c" cs] by simp
  next
    case (Some gm)
    obtain g' m where gm: "gm = (g', m)" by (cases gm)
    show ?thesis
    proof (cases "m = []")
      case True
      then show ?thesis using assms Cons Some gm later[of 1 "Some c" cs] by simp
    next
      case False
      then have "0 < length m" by simp
      from later[OF this, of "Some (last m)" "drop (length m) (c # cs)"]
      have "g = g'" using assms Cons Some gm False by simp
      then show ?thesis using Some gm False Cons by simp
    qed
  qed
qed

section \<open>Issue references\<close>

lemma matchUser_noAt: "c \<noteq> CHR ''@'' \<Longrightarrow> matchUser ks (c # s) = None"
  by (induction ks) auto

lemma userRegex_noAt: "c \<noteq> CHR ''@'' \<Longrightarrow> userRegex ks prev (c # s) = None"
  by (simp add: userRegex_def matchUser_noAt)

lemma replace_user_noAt:
  "CHR ''@'' \<notin> set s \<Longrightarrow> replaceFrom (userRegex ks) f off prev s = s"
  by (induction s arbitrary: off prev) (auto simp: userRegex_noAt)

lemma convertUsers_noAt: "CHR ''@'' \<notin> set s \<Longrightarrow> convertUsers env s = s"
  by (simp add: convertUsers_def replaceAll_def replace_user_noAt)

lemma no_attribution:
  "\<not> add_line \<or> author_username item = None \<or> created_at item = None \<Longrightarrow>
   (if add_line then addMigrationLine env str item link else str) = str"
  by (auto simp: addMigrationLine_def split: option.splits)

lemma showInt_42: "showInt 42 = ''42''"
  by code_simp

lemma parseInt_3: "parseInt ''3'' = 3"
  by code_simp

lemma parseInt_99: "parseInt ''99'' = 99"
  by code_simp

lemma parseInt_42: "parseInt ''42'' = 42"
  by code_simp

lemmas regex_defs =
  replaceAll_def numberRefRegex_def titleRefRegex_def nonWordBefore_def isWordChar_def
  isDigit_def matchDigits_def matchQuoted_def isLineTerminator_def

lemma attachments_none:
  "CHR ''['' \<notin> set s \<Longrightarrow> fst (convertAttachments env conv s) = s"
proof -
  assume n: "CHR ''['' \<notin> set s"
  have r: "attachmentRegex prev t = None" if "CHR ''['' \<notin> set t" for prev t
  proof (cases t)
    case Nil
    then show ?thesis by (simp add: attachmentRegex_def matchLink_def)
  next
    case (Cons a t')
    then show ?thesis using that
      by (cases t') (auto simp: attachmentRegex_def matchLink_def)
  qed
  have a: "replaceFrom attachmentRegex f off prev s = s" for f off prev
    using n
  proof (induction s arbitrary: off prev)
    case Nil
    then show ?case by simp
  next
    case (Cons c cs)
    have "attachmentRegex prev (c # cs) = None" using Cons.prems by (intro r) simp
    then show ?case using Cons by simp
  qed
  show ?thesis
    by (simp add: convertAttachments_def a split: prod.splits)
qed

lemma convertBody_see3:
  assumes "\<not> hasProjectmap env" "\<not> add_line \<or> author_username item = None \<or> created_at item = None"
    "issueMap conv = Some im" "map_get 3 im = Some 42"
  shows "fst (convertBody env conv ''see #3'' item add_line) = ''see #42''"
proof -
  have u: "convertUsers env ''see #3'' = ''see #3''"
    by (rule convertUsers_noAt) simp
  have i: "convertIssueRefs env conv ''see #3'' = ''see #42''"
    using assms(1,3,4)
    by (simp add: convertIssueRefs_def regex_defs issueReplacer_def parseInt_3 showInt_42)
  have m: "convertMilestoneRefs env conv ''see #42'' = ''see #42''"
    using assms(1) by (simp add: convertMilestoneRefs_def regex_defs)
  have r: "convertMergeRequestRefs env conv ''see #42'' = ''see #42''"
    using assms(1) by (simp add: convertMergeRequestRefs_def regex_defs)
  have a: "fst (convertAttachments env conv ''see #42'') = ''see #42''"
    by (rule attachments_none) simp
  show ?thesis
    by (simp add: convertBody_def Let_def no_attribution[OF assms(2)] u i m r a)
qed

lemma convertBody_see99:
  assumes "\<not> hasProjectmap env" "\<not> add_line \<or> author_username item = None \<or> created_at item = None"
    "issueMap conv = None \<or> (issueMap conv = Some im \<and> map_get 99 im = None)"
  shows "fst (convertBody env conv ''see #99'' item add_line) = ''see #99''"
proof -
  have u: "convertUsers env ''see #99'' = ''see #99''"
    by (rule convertUsers_noAt) simp
  have i: "convertIssueRefs env conv ''see #99'' = ''see #99''"
    using assms(1,3)
    by (auto simp: convertIssueRefs_def regex_defs issueReplacer_def parseInt_99)
  have m: "convertMilestoneRefs env conv ''see #99'' = ''see #99''"
    using assms(1) by (simp add: convertMilestoneRefs_def regex_defs)
  have r: "convertMergeRequestRefs env conv ''see #99'' = ''see #99''"
    using assms(1) by (simp add: convertMergeRequestRefs_def regex_defs)
  have a: "fst (convertAttachments env conv ''see #99'') = ''see #99''"
    by (rule attachments_none) simp
  show ?thesis
    by (simp add: convertBody_def Let_def no_attribution[OF assms(2)] u i m r a)
qed

lemma sigil_not_digit: "\<not> isDigit (CHR ''#'')" "\<not> isDigit (CHR ''%'')" "\<not> isDigit (CHR ''!'')"
  by (simp_all add: isDigit_def)

text \<open>
  C3. In the pass over the same-project issue references, a reference \<open>#n\<close> that
  follows a non-word character is replaced by \<open>#m\<close> when the issue map sends \<open>n\<close>
  to \<open>m\<close>, and stays \<open>#n\<close> when the map has no entry for \<open>n\<close> (or there is no
  map); the text before and the text behind the reference are rewritten on their own.
  Through the whole of \<open>convertBody\<close>, without attribution line and without project
  table: \<open>see #3\<close> becomes exactly \<open>see #42\<close> when the map sends 3 to 42, and
  \<open>see #99\<close> comes back unchanged when 99 is not mapped. No case raises an error: the
  result is a string in each.
\<close>

theorem issue_reference_rewrite:
  "(\<not> isWordChar c \<and> ds \<noteq> [] \<and> (\<forall>d\<in>set ds. isDigit d) \<and> (rest = [] \<or> \<not> isDigit (hd rest)) \<and>
    issueMap conv = Some im \<and> map_get (parseInt ds) im = Some m \<longrightarrow>
      replaceAll (numberRefRegex (CHR ''#'')) (issueReplacer conv) (pre @ c # CHR ''#'' # ds @ rest)
        = replaceAll (numberRefRegex (CHR ''#'')) (issueReplacer conv) (pre @ [c]) @
          ''#'' @ showInt m @
          replaceFrom (numberRefRegex (CHR ''#'')) (\<lambda>x off. issueReplacer conv x) 0
            (Some (last ds)) rest) \<and>
   (\<not> isWordChar c \<and> ds \<noteq> [] \<and> (\<forall>d\<in>set ds. isDigit d) \<and> (rest = [] \<or> \<not> isDigit (hd rest)) \<and>
    (issueMap conv = None \<or> issueMap conv = Some im \<and> map_get (parseInt ds) im = None) \<longrightarrow>
      replaceAll (numberRefRegex (CHR ''#'')) (issueReplacer conv) (pre @ c # CHR ''#'' # ds @ rest)
        = replaceAll (numberRefRegex (CHR ''#'')) (issueReplacer conv) (pre @ [c]) @
          ''#'' @ ds @
          replaceFrom (numberRefRegex (CHR ''#'')) (\<lambda>x off. issueReplacer conv x) 0
            (Some (last ds)) rest) \<and>
   (\<not> hasProjectmap env \<and> (\<not> add_line \<or> author_username item = None \<or> created_at item = None) \<and>
    issueMap conv = Some im \<and> map_get 3 im = Some 42 \<longrightarrow>
      fst (convertBody env conv ''see #3'' item add_line) = ''see #42'') \<and>
   (\<not> hasProjectmap env \<and> (\<not> add_line \<or> author_username item = None \<or> created_at item = None) \<and>
    (issueMap conv = None \<or> issueMap conv = Some im \<and> map_get 99 im = None) \<longrightarrow>
      fst (convertBody env conv ''see #99'' item add_line) = ''see #99'')"
proof -
  have d: "\<not> isWordChar c \<and> ds \<noteq> [] \<and> (\<forall>d\<in>set ds. isDigit d) \<and> (rest = [] \<or> \<not> isDigit (hd rest)) \<Longrightarrow>
      replaceAll (numberRefRegex (CHR ''#'')) (issueReplacer conv) (pre @ c # CHR ''#'' # ds @ rest)
        = replaceAll (numberRefRegex (CHR ''#'')) (issueReplacer conv) (pre @ [c]) @
          issueReplacer conv ds @
          replaceFrom (numberRefRegex (CHR ''#'')) (\<lambda>x off. issueReplacer conv x) 0
            (Some (last ds)) rest"
    unfolding replaceAll_def
    by (intro numberRef_decompose sigil_not_digit) blast+
  have f: "issueMap conv = Some im \<and> map_get (parseInt ds) im = Some m \<Longrightarrow>
       issueReplacer conv ds = ''#'' @ showInt m"
    by (simp add: issueReplacer_def)
  have n: "issueMap conv = None \<or> issueMap conv = Some im \<and> map_get (parseInt ds) im = None \<Longrightarrow>
       issueReplacer conv ds = ''#'' @ ds"
    by (auto simp: issueReplacer_def)
  have c1: "\<not> isWordChar c \<and> ds \<noteq> [] \<and> (\<forall>d\<in>set ds. isDigit d) \<and> (rest = [] \<or> \<not> isDigit (hd rest)) \<and>
    issueMap conv = Some im \<and> map_get (parseInt ds) im = Some m \<longrightarrow>
      replaceAll (numberRefRegex (CHR ''#'')) (issueReplacer conv) (pre @ c # CHR ''#'' # ds @ rest)
        = replaceAll (numberRefRegex (CHR ''#'')) (issueReplacer conv) (pre @ [c]) @
          ''#'' @ showInt m @
          replaceFrom (numberRefRegex (CHR ''#'')) (\<lambda>x off. issueReplacer conv x) 0
            (Some (last ds)) rest"
  proof
    assume h: "\<not> isWordChar c \<and> ds \<noteq> [] \<and> (\<forall>d\<in>set ds. isDigit d) \<and> (rest = [] \<or> \<not> isDigit (hd rest)) \<and>
      issueMap conv = Some im \<and> map_get (parseInt ds) im = Some m"
    then have "issueReplacer conv ds = ''#'' @ showInt m" using f by blast
    moreover have "\<not> isWordChar c \<and> ds \<noteq> [] \<and> (\<forall>d\<in>set ds. isDigit d) \<and> (rest = [] \<or> \<not> isDigit (hd rest))"
      using h by blast
    ultimately show "replaceAll (numberRefRegex (CHR ''#'')) (issueReplacer conv) (pre @ c # CHR ''#'' # ds @ rest)
        = replaceAll (numberRefRegex (CHR ''#'')) (issueReplacer conv) (pre @ [c]) @
          ''#'' @ showInt m @
          replaceFrom (numberRefRegex (CHR ''#'')) (\<lambda>x off. issueReplacer conv x) 0
            (Some (last ds)) rest"
      using d by simp
  qed
  have c2: "\<not> isWordChar c \<and> ds \<noteq> [] \<and> (\<forall>d\<in>set ds. isDigit d) \<and> (rest = [] \<or> \<not> isDigit (hd rest)) \<and>
    (issueMap conv = None \<or> issueMap conv = Some im \<and> map_get (parseInt ds) im = None) \<longrightarrow>
      replaceAll (numberRefRegex (CHR ''#'')) (issueReplacer conv) (pre @ c # CHR ''#'' # ds @ rest)
        = replaceAll (numberRefRegex (CHR ''#'')) (issueReplacer conv) (pre @ [c]) @
          ''#'' @ ds @
          replaceFrom (numberRefRegex (CHR ''#'')) (\<lambda>x off. issueReplacer conv x) 0
            (Some (last ds)) rest"
  proof
    assume h: "\<not> isWordChar c \<and> ds \<noteq> [] \<and> (\<forall>d\<in>set ds. isDigit d) \<and> (rest = [] \<or> \<not> isDigit (hd rest)) \<and>
      (issueMap conv = None \<or> issueMap conv = Some im \<and> map_get (parseInt ds) im = None)"
    then have "issueReplacer conv ds = ''#'' @ ds" using n by blast
    moreover have "\<not> isWordChar c \<and> ds \<noteq> [] \<and> (\<forall>d\<in>set ds. isDigit d) \<and> (rest = [] \<or> \<not> isDigit (hd rest))"
      using h by blast
    ultimately show "replaceAll (numberRefRegex (CHR ''#'')) (issueReplacer conv) (pre @ c # CHR ''#'' # ds @ rest)
        = replaceAll (numberRefRegex (CHR ''#'')) (issueReplacer conv) (pre @ [c]) @
          ''#'' @ ds @
          replaceFrom (numberRefRegex (CHR ''#'')) (\<lambda>x off. issueReplacer conv x) 0
            (Some (last ds)) rest"
      using d by simp
  qed
  have c3: "\<not> hasProjectmap env \<and> (\<not> add_line \<or> author_username item = None \<or> created_at item = None) \<and>
    issueMap conv = Some im \<and> map_get 3 im = Some 42 \<longrightarrow>
      fst (convertBody env conv ''see #3'' item add_line) = ''see #42''"
    using convertBody_see3[of env add_line item conv im] by blast
  have c4: "\<not> hasProjectmap env \<and> (\<not> add_line \<or> author_username item = None \<or> created_at item = None) \<and>
    (issueMap conv = None \<or> issueMap conv = Some im \<and> map_get 99 im = None) \<longrightarrow>
      fst (convertBody env conv ''see #99'' item add_line) = ''see #99''"
    using convertBody_see99[of env add_line item conv im] by blast
  from c1 c2 c3 c4 show ?thesis by (intro conjI)
qed

theorem issue_reference_rewrite_witness:
  "replaceAll (numberRefRegex (CHR ''#'')) (issueReplacer sampleConverter) ''fixes #3 today''
     = ''fixes #42 today'' \<and>
   replaceAll (numberRefRegex (CHR ''#'')) (issueReplacer sampleConverter) ''fixes #99 today''
     = ''fixes #99 today'' \<and>
   fst (convertBody plainEnvironment sampleConverter ''see #3'' (gitlabItem 1 ''entity'') True)
     = ''see #42'' \<and>
   fst (convertBody plainEnvironment sampleConverter ''see #99'' (gitlabItem 1 ''entity'') True)
     = ''see #99''"
proof -
  have np: "\<not> hasProjectmap plainEnvironment"
    by (simp add: hasProjectmap_def plainEnvironment_def)
  have na: "\<not> True \<or> author_username (gitlabItem 1 ''entity'') = None \<or>
            created_at (gitlabItem 1 ''entity'') = None"
    by (simp add: gitlabItem_def asGitLabItem_def)
  have im: "issueMap sampleConverter = Some [(3, 42)]"
    by (simp add: sampleConverter_def)
  have g3: "map_get (parseInt ''3'') [(3::int, 42::int)] = Some 42" "map_get 3 [(3::int, 42::int)] = Some 42"
    by (simp_all add: parseInt_3 map_get_def)
  have g99: "map_get (parseInt ''99'') [(3::int, 42::int)] = None" "map_get 99 [(3::int, 42::int)] = None"
    by (simp_all add: parseInt_99 map_get_def)
  have w: "\<not> isWordChar (CHR '' '')" "\<forall>d\<in>set ''3''. isDigit d" "\<forall>d\<in>set ''99''. isDigit d"
    "\<not> isDigit (hd '' today'')"
    by (simp_all add: isWordChar_def isDigit_def)
  have before: "replaceAll (numberRefRegex (CHR ''#'')) (issueReplacer sampleConverter) ''fixes '' = ''fixes ''"
    by (simp add: regex_defs)
  have after3: "replaceFrom (numberRefRegex (CHR ''#'')) (\<lambda>x off. issueReplacer sampleConverter x) 0
       (Some (last ''3'')) '' today'' = '' today''"
    by (simp add: regex_defs)
  have after99: "replaceFrom (numberRefRegex (CHR ''#'')) (\<lambda>x off. issueReplacer sampleConverter x) 0
       (Some (last ''99'')) '' today'' = '' today''"
    by (simp add: regex_defs)
  note t3 = issue_reference_rewrite[of "CHR '' ''" "''3''" "'' today''" sampleConverter "[(3, 42)]" 42
      "''fixes''" plainEnvironment True "gitlabItem 1 ''entity''"]
  note t99 = issue_reference_rewrite[of "CHR '' ''" "''99''" "'' today''" sampleConverter "[(3, 42)]" 42
      "''fixes''" plainEnvironment True "gitlabItem 1 ''entity''"]
  have r3: "replaceAll (numberRefRegex (CHR ''#'')) (issueReplacer sampleConverter) ''fixes #3 today''
     = ''fixes #42 today''"
    using t3 w im g3 before after3 by (simp add: showInt_42)
  have r99: "replaceAll (numberRefRegex (CHR ''#'')) (issueReplacer sampleConverter) ''fixes #99 today''
     = ''fixes #99 today''"
    using t99 w im g99 before after99 by simp
  have b3: "fst (convertBody plainEnvironment sampleConverter ''see #3'' (gitlabItem 1 ''entity'') True)
     = ''see #42''"
    using t3 np na im g3 by blast
  have b99: "fst (convertBody plainEnvironment sampleConverter ''see #99'' (gitlabItem 1 ''entity'') True)
     = ''see #99''"
    using t99 np na im g99 by blast
  from r3 r99 b3 b99 show ?thesis by (intro conjI)
qed

section \<open>Cross-project references\<close>

text \<open>
  C4. With one project in the table the claim's example holds: \<open>otherorg/repo#5\<close>
  becomes \<open>dest/repo#5\<close>. With two projects, a reference to the second one does not:
  the expression has two groups per alternative and the replacer reads groups 1 and 2,
  which are undefined unless the first alternative matched, so \<open>otherorg/repo#5\<close>
  becomes \<open>undefined#undefined\<close>: neither the mapped project nor the number survive.
\<close>

theorem cross_project_reference_second_key:
  "fst (convertBody oneProjectEnvironment sampleConverter ''otherorg/repo#5''
          (gitlabItem 1 ''entity'') True) = ''dest/repo#5'' \<and>
   fst (convertBody twoProjectsEnvironment sampleConverter ''group/first#5''
          (gitlabItem 1 ''entity'') True) = ''Org/first#5'' \<and>
   fst (convertBody twoProjectsEnvironment sampleConverter ''otherorg/repo#5''
          (gitlabItem 1 ''entity'') True) = ''undefined#undefined''"
  by code_simp

section \<open>Milestone references\<close>

lemma matchQuoted_Some:
  "matchQuoted s = Some t \<longleftrightarrow>
     (\<exists>r. s = dq # t @ dq # r) \<and> (\<forall>x\<in>set t. x \<noteq> dq \<and> \<not> isLineTerminator x)"
proof
  assume m: "matchQuoted s = Some t"
  then obtain cs where s: "s = dq # cs"
    by (cases s) (auto simp: matchQuoted_def split: if_splits)
  let ?P = "\<lambda>c. c \<noteq> dq \<and> \<not> isLineTerminator c"
  let ?t = "takeWhile ?P cs"
  from m s obtain r where d: "drop (length ?t) cs = dq # r" and t: "t = ?t"
    by (auto simp: matchQuoted_def Let_def split: list.splits if_splits)
  have "cs = ?t @ drop (length ?t) cs"
    by (metis append_take_drop_id takeWhile_eq_take)
  then have "cs = t @ dq # r" using d t by simp
  moreover have "\<forall>x\<in>set t. ?P x" unfolding t using set_takeWhileD[of _ ?P cs] by blast
  ultimately show "(\<exists>r. s = dq # t @ dq # r) \<and> (\<forall>x\<in>set t. x \<noteq> dq \<and> \<not> isLineTerminator x)"
    using s by blast
next
  assume "(\<exists>r. s = dq # t @ dq # r) \<and> (\<forall>x\<in>set t. x \<noteq> dq \<and> \<not> isLineTerminator x)"
  then obtain r where s: "s = dq # t @ dq # r" and t: "\<forall>x\<in>set t. x \<noteq> dq \<and> \<not> isLineTerminator x"
    by blast
  have "takeWhile (\<lambda>c. c \<noteq> dq \<and> \<not> isLineTerminator c) (t @ dq # r) = t"
    using t by (induction t) auto
  then show "matchQuoted s = Some t" by (simp add: matchQuoted_def s)
qed

lemma titleRef_Some:
  "titleRefRegex prev s = Some (t, m) \<longleftrightarrow>
     nonWordBefore prev \<and> (\<exists>r. s = CHR ''%'' # dq # t @ dq # r) \<and>
     (\<forall>x\<in>set t. x \<noteq> dq \<and> \<not> isLineTerminator x) \<and> m = CHR ''%'' # dq # t @ [dq]"
proof (cases s)
  case Nil
  then show ?thesis by (simp add: titleRefRegex_def)
next
  case (Cons a cs)
  show ?thesis
    unfolding Cons titleRefRegex_def
    by (auto simp: matchQuoted_Some)
qed

lemma titleRef_arrive:
  assumes "(g, off + length pre) \<in> set (matchAllFrom titleRefRegex off prev (pre @ X))"
  shows "replaceFrom titleRefRegex (\<lambda>x off. f x) 0 prev (pre @ X)
       = replaceFrom titleRefRegex (\<lambda>x off. f x) 0 prev pre @
         replaceFrom titleRefRegex (\<lambda>x off. f x) 0 (if pre = [] then prev else Some (last pre)) X \<and>
     (\<exists>m. titleRefRegex (if pre = [] then prev else Some (last pre)) X = Some (g, m))"
  using assms
proof (induction "length pre" arbitrary: pre prev off rule: less_induct)
  case less
  let ?R = "titleRefRegex"
  let ?F = "\<lambda>x (off::nat). f x"
  have o: "\<And>off p s. replaceFrom ?R ?F off p s = replaceFrom ?R ?F 0 p s"
    by (rule replaceFrom_offset)
  show ?case
  proof (cases pre)
    case Nil
    from less.prems have "(g, off) \<in> set (matchAllFrom ?R off prev X)" by (simp add: Nil)
    from matchAllFrom_first[OF this] show ?thesis by (auto simp: Nil)
  next
    case (Cons a p')
    show ?thesis
    proof (cases "?R prev (a # p' @ X)")
      case None
      have alone: "?R prev (a # p') = None"
      proof (rule ccontr)
        assume "?R prev (a # p') \<noteq> None"
        then obtain t m where tm: "?R prev (a # p') = Some (t, m)" by auto
        then obtain r where "a # p' = CHR ''%'' # dq # t @ dq # r"
          and rest: "nonWordBefore prev" "\<forall>x\<in>set t. x \<noteq> dq \<and> \<not> isLineTerminator x"
            "m = CHR ''%'' # dq # t @ [dq]"
          unfolding titleRef_Some by blast
        then have "a # p' @ X = CHR ''%'' # dq # t @ dq # (r @ X)" by simp
        then have "?R prev (a # p' @ X) = Some (t, m)"
          unfolding titleRef_Some using rest by blast
        then show False using None by simp
      qed
      have mem: "(g, (off + 1) + length p') \<in> set (matchAllFrom ?R (off + 1) (Some a) (p' @ X))"
        using less.prems None by (simp add: Cons)
      have "length p' < length pre" using Cons by simp
      from less.hyps[OF this mem]
      have ih: "replaceFrom ?R ?F 0 (Some a) (p' @ X)
          = replaceFrom ?R ?F 0 (Some a) p' @
            replaceFrom ?R ?F 0 (if p' = [] then Some a else Some (last p')) X"
        and ex: "\<exists>m. ?R (if p' = [] then Some a else Some (last p')) X = Some (g, m)"
        by blast+
      have b: "(if p' = [] then Some a else Some (last p')) = (if pre = [] then prev else Some (last pre))"
        by (simp add: Cons)
      have l: "replaceFrom ?R ?F 0 prev (pre @ X) = a # replaceFrom ?R ?F 0 (Some a) (p' @ X)"
        using None o[of "Suc 0"] by (simp add: Cons)
      have r: "replaceFrom ?R ?F 0 prev pre = a # replaceFrom ?R ?F 0 (Some a) p'"
        using alone o[of "Suc 0"] by (simp add: Cons)
      show ?thesis using l r ih ex unfolding b by simp
    next
      case (Some tm)
      obtain t m where tm: "tm = (t, m)" by (cases tm)
      have "?R prev (a # p' @ X) = Some (t, m)" using Some tm by simp
      then obtain r where sh: "a # p' @ X = CHR ''%'' # dq # t @ dq # r"
        and rest: "nonWordBefore prev" "\<forall>x\<in>set t. x \<noteq> dq \<and> \<not> isLineTerminator x"
        and m: "m = CHR ''%'' # dq # t @ [dq]"
        unfolding titleRef_Some by blast
      have mne: "m \<noteq> []" using m by simp
      have lm: "last m = dq" using m by simp
      have full: "pre @ X = m @ r" using sh m by (simp add: Cons)
      let ?tl = "matchAllFrom ?R (off + length m) (Some (last m)) (drop (length m) (pre @ X))"
      have e: "matchAllFrom ?R off prev (pre @ X) = (t, off) # ?tl"
        using Some tm mne by (simp add: Cons)
      have "(g, off + length pre) \<in> set ?tl"
        using less.prems unfolding e by (simp add: Cons)
      then have intl: "off + length pre \<in> set (map snd ?tl)" by force
      then have "off + length m \<le> off + length pre"
        using matchAllFrom_offsets[of ?R "off + length m" "Some (last m)" "drop (length m) (pre @ X)"]
        by blast
      then have le: "length m \<le> length pre" by simp
      let ?p = "drop (length m) pre"
      have pm: "pre = m @ ?p"
      proof -
        have "take (length m) (pre @ X) = m" unfolding full by simp
        then have "take (length m) pre = m" using le by simp
        then show ?thesis by (metis append_take_drop_id)
      qed
      have dr: "drop (length m) (pre @ X) = ?p @ X" using le by simp
      have alone: "?R prev pre = Some (t, m)"
      proof -
        have "pre = CHR ''%'' # dq # t @ dq # ?p" using pm m by simp
        then show ?thesis unfolding titleRef_Some using rest m by blast
      qed
      have mem: "(g, (off + length m) + length ?p) \<in> set (matchAllFrom ?R (off + length m) (Some (last m)) (?p @ X))"
        using \<open>(g, off + length pre) \<in> set ?tl\<close> le unfolding dr by simp
      have "length ?p < length pre" using mne Cons by simp
      from less.hyps[OF this mem]
      have ih: "replaceFrom ?R ?F 0 (Some (last m)) (?p @ X)
          = replaceFrom ?R ?F 0 (Some (last m)) ?p @
            replaceFrom ?R ?F 0 (if ?p = [] then Some (last m) else Some (last ?p)) X"
        and ex: "\<exists>m'. ?R (if ?p = [] then Some (last m) else Some (last ?p)) X = Some (g, m')"
        by blast+
      have "last pre = (if ?p = [] then last m else last ?p)"
        using pm mne by (metis append_Nil2 last_appendR)
      moreover have "pre \<noteq> []" by (simp add: Cons)
      ultimately have b: "(if ?p = [] then Some (last m) else Some (last ?p)) = (if pre = [] then prev else Some (last pre))"
        by (cases "?p = []") presburger+
      have pX: "pre @ X = a # p' @ X" by (simp add: Cons)
      have l: "replaceFrom ?R ?F 0 prev (pre @ X) = f t @ replaceFrom ?R ?F 0 (Some (last m)) (?p @ X)"
        unfolding pX using Some tm mne dr[unfolded pX] o[of "length m"] by simp
      have r: "replaceFrom ?R ?F 0 prev pre = f t @ replaceFrom ?R ?F 0 (Some (last m)) ?p"
        using alone mne o[of "length m"] unfolding Cons by simp
      show ?thesis using l r ih ex unfolding b by simp
    qed
  qed
qed

lemma convertMilestoneRefs_passes:
  "convertMilestoneRefs env conv str
     = replaceAll (numberRefRegex (CHR ''%'')) (\<lambda>p1. milestoneReplacer env conv p1 [] [])
         (replaceAll titleRefRegex (\<lambda>p1. milestoneReplacer env conv [] p1 [])
            (crossProjectMilestoneRefs env str))"
  by (simp add: convertMilestoneRefs_def crossProjectMilestoneRefs_def)

lemma titleRef_match_decompose:
  assumes "(ttl, length pre) \<in> set (matchAll titleRefRegex (pre @ CHR ''%'' # dq # ttl @ dq # rest))"
  shows "replaceAll titleRefRegex f (pre @ CHR ''%'' # dq # ttl @ dq # rest)
     = replaceAll titleRefRegex f pre @ f ttl @
       replaceFrom titleRefRegex (\<lambda>x off. f x) 0 (Some dq) rest"
proof -
  let ?F = "\<lambda>x (off::nat). f x"
  define X where "X = CHR ''%'' # dq # ttl @ dq # rest"
  define p where "p = (if pre = [] then None else Some (last pre))"
  have mem: "(ttl, 0 + length pre) \<in> set (matchAllFrom titleRefRegex 0 None (pre @ X))"
    using assms by (simp add: matchAll_def X_def)
  from titleRef_arrive[OF mem, of f]
  have sp: "replaceFrom titleRefRegex ?F 0 None (pre @ X)
       = replaceFrom titleRefRegex ?F 0 None pre @ replaceFrom titleRefRegex ?F 0 p X"
    and ex: "\<exists>m. titleRefRegex p X = Some (ttl, m)"
    unfolding p_def by blast+
  from ex obtain m where m: "titleRefRegex p X = Some (ttl, m)" by blast
  then have mm: "m = CHR ''%'' # dq # ttl @ [dq]" unfolding titleRef_Some by blast
  have o: "\<And>off p s. replaceFrom titleRefRegex ?F off p s = replaceFrom titleRefRegex ?F 0 p s"
    by (rule replaceFrom_offset)
  have dr: "drop (length m) X = rest" by (simp add: mm X_def)
  have lm: "last m = dq" by (simp add: mm)
  have mne: "m \<noteq> []" by (simp add: mm)
  have Xc: "X = CHR ''%'' # (dq # ttl @ dq # rest)" by (simp add: X_def)
  have "replaceFrom titleRefRegex ?F 0 p X
      = f ttl @ replaceFrom titleRefRegex ?F (0 + length m) (Some (last m)) (drop (length m) X)"
    using m[unfolded Xc] mne unfolding Xc by simp
  then have x: "replaceFrom titleRefRegex ?F 0 p X = f ttl @ replaceFrom titleRefRegex ?F 0 (Some dq) rest"
    unfolding dr lm using o[of "0 + length m" "Some dq" rest] by simp
  show ?thesis
    unfolding replaceAll_def using sp x by (simp add: X_def)
qed

lemma deleted_survives_numberRef:
  assumes "noMatchIn (numberRefRegex (CHR ''%'')) (Some (CHR '' '')) (CHR ''%'' # ttl) [sq]"
  shows "replaceFrom (numberRefRegex (CHR ''%'')) (\<lambda>x off. f x) 0 prev
           (A @ ([sq] @ ''Reference to deleted milestone %'' @ ttl @ [sq]) @ Y)
     = replaceFrom (numberRefRegex (CHR ''%'')) (\<lambda>x off. f x) 0 prev A @
       ([sq] @ ''Reference to deleted milestone %'' @ ttl @ [sq]) @
       replaceFrom (numberRefRegex (CHR ''%'')) (\<lambda>x off. f x) 0 (Some sq) Y"
proof -
  let ?R = "numberRefRegex (CHR ''%'')"
  let ?F = "\<lambda>x (off::nat). f x"
  define W where "W = ''Reference to deleted milestone ''"
  define B where "B = W @ (CHR ''%'' # ttl) @ [sq]"
  have D: "[sq] @ ''Reference to deleted milestone %'' @ ttl @ [sq] = sq # B"
    by (simp add: B_def W_def)
  have sqd: "\<not> isDigit sq" "sq \<noteq> CHR ''%''" by (simp_all add: isDigit_def)
  have w: "noMatchIn ?R (Some sq) W (((CHR ''%'' # ttl) @ [sq]) @ Y)"
    by (rule noMatchIn_numberRef) (simp add: W_def)
  have lw: "(if W = [] then Some sq else Some (last W)) = Some (CHR '' '')"
    by (simp add: W_def)
  have t1: "noMatchIn ?R (Some (CHR '' '')) (CHR ''%'' # ttl) (sq # Y)"
    using sqd(1) assms by (rule noMatchIn_numberRef_rest)
  have t2: "noMatchIn ?R q [sq] Y" for q
    by (simp add: numberRefRegex_def)
  have t: "noMatchIn ?R (Some (CHR '' '')) ((CHR ''%'' # ttl) @ [sq]) Y"
    unfolding noMatchIn_append[of ?R _ "CHR ''%'' # ttl" "[sq]" Y] using t1 t2 by simp
  have n: "noMatchIn ?R (Some sq) B Y"
    unfolding B_def noMatchIn_append[of ?R "Some sq" W "(CHR ''%'' # ttl) @ [sq]" Y] lw
    using w t by blast
  have bne: "B \<noteq> []" by (simp add: B_def)
  have lb: "last B = sq" by (simp add: B_def)
  have o: "\<And>off p s. replaceFrom ?R ?F off p s = replaceFrom ?R ?F 0 p s"
    by (rule replaceFrom_offset)
  have a: "replaceFrom ?R ?F 0 prev (A @ sq # (B @ Y))
      = replaceFrom ?R ?F 0 prev A @ sq # replaceFrom ?R ?F 0 (Some sq) (B @ Y)"
    using sqd by (rule numberRef_append)
  have b: "replaceFrom ?R ?F 0 (Some sq) (B @ Y)
      = B @ replaceFrom ?R ?F (0 + length B) (Some (last B)) Y"
    using n bne by (rule replaceFrom_prefix)
  have b': "replaceFrom ?R ?F 0 (Some sq) (B @ Y) = B @ replaceFrom ?R ?F 0 (Some sq) Y"
    using b o[of "0 + length B" "Some sq" Y] unfolding lb by simp
  show ?thesis unfolding D using a b' by simp
qed

lemma milestone_deleted_number:
  "ds \<noteq> [] \<Longrightarrow>
   milestoneMap conv = None \<or> milestoneMap conv = Some mm \<and> map_get (parseInt ds) mm = None \<Longrightarrow>
   milestoneReplacer env conv ds [] [] = [sq] @ ''Reference to deleted milestone %'' @ ds @ [sq]"
  by (auto simp: milestoneReplacer_def)

lemma milestone_deleted_title:
  "milestoneMap conv = None \<or> milestoneMap conv = Some mm \<and> (\<forall>v\<in>set (map_values mm). title v \<noteq> ttl) \<Longrightarrow>
   milestoneReplacer env conv [] ttl [] = [sq] @ ''Reference to deleted milestone %'' @ ttl @ [sq]"
proof -
  have "find (\<lambda>m. title m = ttl) (map_values mm) = None"
    if "\<forall>v\<in>set (map_values mm). title v \<noteq> ttl"
    using that by (simp add: find_None_iff)
  then show "milestoneMap conv = None \<or> milestoneMap conv = Some mm \<and> (\<forall>v\<in>set (map_values mm). title v \<noteq> ttl) \<Longrightarrow>
   milestoneReplacer env conv [] ttl [] = [sq] @ ''Reference to deleted milestone %'' @ ttl @ [sq]"
    by (auto simp: milestoneReplacer_def)
qed

lemma milestone_found_number:
  "ds \<noteq> [] \<Longrightarrow> milestoneMap conv = Some mm \<Longrightarrow> map_get (parseInt ds) mm = Some m \<Longrightarrow>
   hd (milestoneReplacer env conv ds [] []) = CHR ''[''"
  by (simp add: milestoneReplacer_def)

lemma convertBody_see_deleted:
  assumes "\<not> hasProjectmap env" "\<not> add_line \<or> author_username item = None \<or> created_at item = None"
    "milestoneMap conv = None \<or> milestoneMap conv = Some mm \<and> map_get 42 mm = None"
  shows "fst (convertBody env conv ''see %42'' item add_line)
           = ''see '' @ [sq] @ ''Reference to deleted milestone %42'' @ [sq]"
proof -
  let ?out = "''see '' @ [sq] @ ''Reference to deleted milestone %42'' @ [sq]"
  have u: "convertUsers env ''see %42'' = ''see %42''"
    by (rule convertUsers_noAt) simp
  have i: "convertIssueRefs env conv ''see %42'' = ''see %42''"
    using assms(1) by (simp add: convertIssueRefs_def regex_defs)
  have d: "milestoneReplacer env conv ''42'' [] [] = [sq] @ ''Reference to deleted milestone %42'' @ [sq]"
    using milestone_deleted_number[of "''42''" conv mm env] assms(3) by (simp add: parseInt_42)
  have m: "convertMilestoneRefs env conv ''see %42'' = ?out"
    using assms(1) by (simp add: convertMilestoneRefs_def regex_defs d)
  have r: "convertMergeRequestRefs env conv ?out = ?out"
    using assms(1) by (simp add: convertMergeRequestRefs_def regex_defs)
  have a: "fst (convertAttachments env conv ?out) = ?out"
    by (rule attachments_none) simp
  show ?thesis
    using u i m r a by (simp add: convertBody_def Let_def no_attribution[OF assms(2)])
qed

lemma convertBody_see_deleted_title:
  assumes "\<not> hasProjectmap env" "\<not> add_line \<or> author_username item = None \<or> created_at item = None"
    "milestoneMap conv = None \<or>
     milestoneMap conv = Some mm \<and> (\<forall>v\<in>set (map_values mm). title v \<noteq> ''v9'')"
  shows "fst (convertBody env conv (''see %'' @ [dq] @ ''v9'' @ [dq]) item add_line)
           = ''see '' @ [sq] @ ''Reference to deleted milestone %v9'' @ [sq]"
proof -
  let ?in = "''see %'' @ [dq] @ ''v9'' @ [dq]"
  let ?out = "''see '' @ [sq] @ ''Reference to deleted milestone %v9'' @ [sq]"
  have u: "convertUsers env ?in = ?in"
    by (rule convertUsers_noAt) simp
  have i: "convertIssueRefs env conv ?in = ?in"
    using assms(1) by (simp add: convertIssueRefs_def regex_defs)
  have d: "milestoneReplacer env conv [] ''v9'' [] = [sq] @ ''Reference to deleted milestone %'' @ ''v9'' @ [sq]"
    using assms(3) by (rule milestone_deleted_title)
  have m: "convertMilestoneRefs env conv ?in = ?out"
    using assms(1) d by (simp add: convertMilestoneRefs_def regex_defs)
  have r: "convertMergeRequestRefs env conv ?out = ?out"
    using assms(1) by (simp add: convertMergeRequestRefs_def regex_defs)
  have a: "fst (convertAttachments env conv ?out) = ?out"
    by (rule attachments_none) simp
  show ?thesis
    using u i m r a by (simp add: convertBody_def Let_def no_attribution[OF assms(2)])
qed

text \<open>
  A title that the number pattern matches in: the string the title pass puts in for a
  deleted title is read again by the number pass, which follows it. With milestone 1 in
  the map and no milestone titled \<open>1.0\<close>, \<open>see %"1.0"\<close> becomes
  \<open>see 'Reference to deleted milestone [v1](.../milestone/7).0'\<close>.
\<close>

lemma deleted_title_rewritten_again:
  "fst (convertBody plainEnvironment sampleConverter (''see %'' @ [dq] @ ''1.0'' @ [dq])
          (gitlabItem 1 ''entity'') True)
     = ''see '' @ [sq] @
       ''Reference to deleted milestone [v1](https://github.com/owner/repo/milestone/7).0'' @ [sq]"
  by code_simp

text \<open>
  C5. As stated the claim fails on its own example: without attribution line (a
  milestone description is rewritten without one, and so is the body of an entity
  without author), \<open>%42\<close> stands at the start of the text, nothing precedes the sigil,
  and the reference comes back bare although the map has no milestone 42.
\<close>

theorem leading_milestone_reference_counterexample:
  "map_get 42 (the (milestoneMap sampleConverter)) = None \<and>
   fst (convertBody plainEnvironment sampleConverter ''%42'' (gitlabItem 1 ''entity'') False)
     = ''%42'' \<and>
   fst (convertBody plainEnvironment sampleConverter ''%42'' (gitlabItem 1 ''entity'') True)
     = ''%42''"
  by code_simp

text \<open>
  C5, amended. The two same-project milestone passes, the title pass and then the
  number pass, end the rewriting of milestone references. A reference \<open>%n\<close> that, in
  the text the number pass receives, follows a non-word character and whose number is
  not in the milestone map (or there is no map) is replaced by the string
  \<open>'Reference to deleted milestone %n'\<close>, in single quotes. A reference \<open>%"title"\<close> that
  the title pattern matches in the text the title pass receives (so it follows a
  non-word character and is not inside the quotes of an earlier reference), whose title
  no milestone of the map has, is replaced by \<open>'Reference to deleted milestone %title'\<close>,
  and the number pass leaves that string as it is when the number pattern has no match
  in \<open>%title\<close> (the title does not begin with a digit and holds no \<open>%n\<close> behind a
  non-word character). The text before and the text behind the reference are rewritten
  on their own. A resolved reference begins with \<open>[\<close>, so the two differ. Through the
  whole of \<open>convertBody\<close>, without attribution line and project table, \<open>see %42\<close> becomes
  \<open>see 'Reference to deleted milestone %42'\<close> and \<open>see %"v9"\<close> becomes
  \<open>see 'Reference to deleted milestone %v9'\<close>. A reference at the very start of the text
  is not covered: it is left as it is.
\<close>

theorem milestone_deleted_reference:
  "(replaceAll titleRefRegex (\<lambda>p1. milestoneReplacer env conv [] p1 [])
        (crossProjectMilestoneRefs env str) = pre @ c # CHR ''%'' # ds @ rest \<and>
    \<not> isWordChar c \<and> ds \<noteq> [] \<and> (\<forall>d\<in>set ds. isDigit d) \<and> (rest = [] \<or> \<not> isDigit (hd rest)) \<and>
    (milestoneMap conv = None \<or> milestoneMap conv = Some mm \<and> map_get (parseInt ds) mm = None) \<longrightarrow>
      convertMilestoneRefs env conv str
        = replaceAll (numberRefRegex (CHR ''%'')) (\<lambda>p1. milestoneReplacer env conv p1 [] [])
            (pre @ [c]) @
          [sq] @ ''Reference to deleted milestone %'' @ ds @ [sq] @
          replaceFrom (numberRefRegex (CHR ''%'')) (\<lambda>x off. milestoneReplacer env conv x [] []) 0
            (Some (last ds)) rest) \<and>
   (crossProjectMilestoneRefs env str' = pre' @ CHR ''%'' # dq # ttl @ dq # rest' \<and>
    (ttl, length pre') \<in> set (matchAll titleRefRegex (crossProjectMilestoneRefs env str')) \<and>
    (milestoneMap conv = None \<or>
     milestoneMap conv = Some mm \<and> (\<forall>v\<in>set (map_values mm). title v \<noteq> ttl)) \<and>
    noMatchIn (numberRefRegex (CHR ''%'')) (Some (CHR '' '')) (CHR ''%'' # ttl) [sq] \<longrightarrow>
      convertMilestoneRefs env conv str'
        = replaceAll (numberRefRegex (CHR ''%'')) (\<lambda>p1. milestoneReplacer env conv p1 [] [])
            (replaceAll titleRefRegex (\<lambda>p1. milestoneReplacer env conv [] p1 []) pre') @
          [sq] @ ''Reference to deleted milestone %'' @ ttl @ [sq] @
          replaceFrom (numberRefRegex (CHR ''%'')) (\<lambda>x off. milestoneReplacer env conv x [] []) 0
            (Some sq)
            (replaceFrom titleRefRegex (\<lambda>x off. milestoneReplacer env conv [] x []) 0
               (Some dq) rest')) \<and>
   (ds \<noteq> [] \<and> milestoneMap conv = Some mm \<and> map_get (parseInt ds) mm = Some m \<longrightarrow>
      hd (milestoneReplacer env conv ds [] []) = CHR ''['' \<and>
      milestoneReplacer env conv ds [] [] \<noteq> [sq] @ ''Reference to deleted milestone %'' @ x @ [sq]) \<and>
   (\<not> hasProjectmap env \<and> (\<not> add_line \<or> author_username item = None \<or> created_at item = None) \<and>
    (milestoneMap conv = None \<or> milestoneMap conv = Some mm \<and> map_get 42 mm = None) \<longrightarrow>
      fst (convertBody env conv ''see %42'' item add_line)
        = ''see '' @ [sq] @ ''Reference to deleted milestone %42'' @ [sq]) \<and>
   (\<not> hasProjectmap env \<and> (\<not> add_line \<or> author_username item = None \<or> created_at item = None) \<and>
    (milestoneMap conv = None \<or>
     milestoneMap conv = Some mm \<and> (\<forall>v\<in>set (map_values mm). title v \<noteq> ''v9'')) \<longrightarrow>
      fst (convertBody env conv (''see %'' @ [dq] @ ''v9'' @ [dq]) item add_line)
        = ''see '' @ [sq] @ ''Reference to deleted milestone %v9'' @ [sq])"
proof -
  let ?N = "\<lambda>p1. milestoneReplacer env conv p1 [] []"
  let ?T = "\<lambda>p1. milestoneReplacer env conv [] p1 []"
  let ?NR = "numberRefRegex (CHR ''%'')"
  have c1: "replaceAll titleRefRegex ?T (crossProjectMilestoneRefs env str)
        = pre @ c # CHR ''%'' # ds @ rest \<and>
    \<not> isWordChar c \<and> ds \<noteq> [] \<and> (\<forall>d\<in>set ds. isDigit d) \<and> (rest = [] \<or> \<not> isDigit (hd rest)) \<and>
    (milestoneMap conv = None \<or> milestoneMap conv = Some mm \<and> map_get (parseInt ds) mm = None) \<longrightarrow>
      convertMilestoneRefs env conv str
        = replaceAll ?NR ?N (pre @ [c]) @
          [sq] @ ''Reference to deleted milestone %'' @ ds @ [sq] @
          replaceFrom ?NR (\<lambda>x off. ?N x) 0 (Some (last ds)) rest"
  proof
    assume h: "replaceAll titleRefRegex ?T (crossProjectMilestoneRefs env str)
        = pre @ c # CHR ''%'' # ds @ rest \<and>
      \<not> isWordChar c \<and> ds \<noteq> [] \<and> (\<forall>d\<in>set ds. isDigit d) \<and> (rest = [] \<or> \<not> isDigit (hd rest)) \<and>
      (milestoneMap conv = None \<or> milestoneMap conv = Some mm \<and> map_get (parseInt ds) mm = None)"
    then have r: "?N ds = [sq] @ ''Reference to deleted milestone %'' @ ds @ [sq]"
      using milestone_deleted_number[of ds conv mm env] by blast
    have e: "convertMilestoneRefs env conv str = replaceAll ?NR ?N (pre @ c # CHR ''%'' # ds @ rest)"
      unfolding convertMilestoneRefs_passes using h by simp
    have "replaceFrom ?NR (\<lambda>x off. ?N x) 0 None (pre @ c # CHR ''%'' # ds @ rest)
        = replaceFrom ?NR (\<lambda>x off. ?N x) 0 None (pre @ [c]) @ ?N ds @
          replaceFrom ?NR (\<lambda>x off. ?N x) 0 (Some (last ds)) rest"
      using h by (intro numberRef_decompose sigil_not_digit) blast+
    then show "convertMilestoneRefs env conv str
        = replaceAll ?NR ?N (pre @ [c]) @
          [sq] @ ''Reference to deleted milestone %'' @ ds @ [sq] @
          replaceFrom ?NR (\<lambda>x off. ?N x) 0 (Some (last ds)) rest"
      unfolding e replaceAll_def r by simp
  qed
  have c2: "crossProjectMilestoneRefs env str' = pre' @ CHR ''%'' # dq # ttl @ dq # rest' \<and>
    (ttl, length pre') \<in> set (matchAll titleRefRegex (crossProjectMilestoneRefs env str')) \<and>
    (milestoneMap conv = None \<or>
     milestoneMap conv = Some mm \<and> (\<forall>v\<in>set (map_values mm). title v \<noteq> ttl)) \<and>
    noMatchIn ?NR (Some (CHR '' '')) (CHR ''%'' # ttl) [sq] \<longrightarrow>
      convertMilestoneRefs env conv str'
        = replaceAll ?NR ?N (replaceAll titleRefRegex ?T pre') @
          [sq] @ ''Reference to deleted milestone %'' @ ttl @ [sq] @
          replaceFrom ?NR (\<lambda>x off. ?N x) 0 (Some sq)
            (replaceFrom titleRefRegex (\<lambda>x off. ?T x) 0 (Some dq) rest')"
  proof
    assume h: "crossProjectMilestoneRefs env str' = pre' @ CHR ''%'' # dq # ttl @ dq # rest' \<and>
      (ttl, length pre') \<in> set (matchAll titleRefRegex (crossProjectMilestoneRefs env str')) \<and>
      (milestoneMap conv = None \<or>
       milestoneMap conv = Some mm \<and> (\<forall>v\<in>set (map_values mm). title v \<noteq> ttl)) \<and>
      noMatchIn ?NR (Some (CHR '' '')) (CHR ''%'' # ttl) [sq]"
    define D where "D = [sq] @ ''Reference to deleted milestone %'' @ ttl @ [sq]"
    define A where "A = replaceAll titleRefRegex ?T pre'"
    define Y where "Y = replaceFrom titleRefRegex (\<lambda>x off. ?T x) 0 (Some dq) rest'"
    from h have r: "?T ttl = D"
      unfolding D_def using milestone_deleted_title[of conv mm ttl env] by blast
    from h have sh: "crossProjectMilestoneRefs env str' = pre' @ CHR ''%'' # dq # ttl @ dq # rest'"
      by blast
    from h have "(ttl, length pre') \<in> set (matchAll titleRefRegex (crossProjectMilestoneRefs env str'))"
      by blast
    then have mem: "(ttl, length pre') \<in> set (matchAll titleRefRegex (pre' @ CHR ''%'' # dq # ttl @ dq # rest'))"
      unfolding sh .
    have t: "replaceAll titleRefRegex ?T (crossProjectMilestoneRefs env str') = A @ D @ Y"
      using titleRef_match_decompose[OF mem, of ?T] unfolding sh A_def Y_def r by simp
    from h have nm: "noMatchIn ?NR (Some (CHR '' '')) (CHR ''%'' # ttl) [sq]" by blast
    have n: "replaceFrom ?NR (\<lambda>x off. ?N x) 0 None (A @ D @ Y)
        = replaceFrom ?NR (\<lambda>x off. ?N x) 0 None A @ D @
          replaceFrom ?NR (\<lambda>x off. ?N x) 0 (Some sq) Y"
      unfolding D_def by (rule deleted_survives_numberRef[OF nm])
    have "convertMilestoneRefs env conv str' = replaceAll ?NR ?N A @ D @
          replaceFrom ?NR (\<lambda>x off. ?N x) 0 (Some sq) Y"
      unfolding convertMilestoneRefs_passes t using n by (simp add: replaceAll_def)
    then show "convertMilestoneRefs env conv str'
        = replaceAll ?NR ?N (replaceAll titleRefRegex ?T pre') @
          [sq] @ ''Reference to deleted milestone %'' @ ttl @ [sq] @
          replaceFrom ?NR (\<lambda>x off. ?N x) 0 (Some sq)
            (replaceFrom titleRefRegex (\<lambda>x off. ?T x) 0 (Some dq) rest')"
      unfolding A_def D_def Y_def by simp
  qed
  have c3: "ds \<noteq> [] \<and> milestoneMap conv = Some mm \<and> map_get (parseInt ds) mm = Some m \<longrightarrow>
      hd (?N ds) = CHR ''['' \<and>
      ?N ds \<noteq> [sq] @ ''Reference to deleted milestone %'' @ x @ [sq]"
  proof
    assume h: "ds \<noteq> [] \<and> milestoneMap conv = Some mm \<and> map_get (parseInt ds) mm = Some m"
    then have hd1: "hd (?N ds) = CHR ''[''"
      using milestone_found_number[of ds conv mm m env] by blast
    have "?N ds \<noteq> [sq] @ ''Reference to deleted milestone %'' @ x @ [sq]"
    proof
      assume e: "?N ds = [sq] @ ''Reference to deleted milestone %'' @ x @ [sq]"
      have "hd (?N ds) = sq" unfolding e by simp
      with hd1 show False by simp
    qed
    with hd1 show "hd (?N ds) = CHR ''['' \<and>
      ?N ds \<noteq> [sq] @ ''Reference to deleted milestone %'' @ x @ [sq]" by blast
  qed
  have c4: "\<not> hasProjectmap env \<and> (\<not> add_line \<or> author_username item = None \<or> created_at item = None) \<and>
    (milestoneMap conv = None \<or> milestoneMap conv = Some mm \<and> map_get 42 mm = None) \<longrightarrow>
      fst (convertBody env conv ''see %42'' item add_line)
        = ''see '' @ [sq] @ ''Reference to deleted milestone %42'' @ [sq]"
    using convertBody_see_deleted[of env add_line item conv mm] by blast
  have c5: "\<not> hasProjectmap env \<and> (\<not> add_line \<or> author_username item = None \<or> created_at item = None) \<and>
    (milestoneMap conv = None \<or>
     milestoneMap conv = Some mm \<and> (\<forall>v\<in>set (map_values mm). title v \<noteq> ''v9'')) \<longrightarrow>
      fst (convertBody env conv (''see %'' @ [dq] @ ''v9'' @ [dq]) item add_line)
        = ''see '' @ [sq] @ ''Reference to deleted milestone %v9'' @ [sq]"
    using convertBody_see_deleted_title[of env add_line item conv mm] by blast
  from c1 c2 c3 c4 c5 show ?thesis by (intro conjI)
qed

theorem milestone_deleted_reference_witness:
  "convertMilestoneRefs plainEnvironment sampleConverter ''see %42 now''
     = ''see '' @ [sq] @ ''Reference to deleted milestone %42'' @ [sq] @ '' now'' \<and>
   convertMilestoneRefs plainEnvironment sampleConverter
       (''say '' @ [dq] @ ''hi'' @ [dq] @ '' and see %'' @ [dq] @ ''v9'' @ [dq] @ '' now'')
     = ''say '' @ [dq] @ ''hi'' @ [dq] @ '' and see '' @ [sq] @
       ''Reference to deleted milestone %v9'' @ [sq] @ '' now'' \<and>
   fst (convertBody plainEnvironment sampleConverter ''see %42'' (gitlabItem 1 ''entity'') True)
     = ''see '' @ [sq] @ ''Reference to deleted milestone %42'' @ [sq] \<and>
   fst (convertBody plainEnvironment sampleConverter (''see %'' @ [dq] @ ''v9'' @ [dq])
          (gitlabItem 1 ''entity'') True)
     = ''see '' @ [sq] @ ''Reference to deleted milestone %v9'' @ [sq]"
proof -
  let ?mm = "[(1::int, simpleItem 7 ''v1'')]"
  let ?N = "\<lambda>p1. milestoneReplacer plainEnvironment sampleConverter p1 [] []"
  let ?T = "\<lambda>p1. milestoneReplacer plainEnvironment sampleConverter [] p1 []"
  let ?NR = "numberRefRegex (CHR ''%'')"
  let ?pre = "''say '' @ [dq] @ ''hi'' @ [dq] @ '' and see ''"
  let ?str = "''say '' @ [dq] @ ''hi'' @ [dq] @ '' and see %'' @ [dq] @ ''v9'' @ [dq] @ '' now''"
  have np: "\<not> hasProjectmap plainEnvironment"
    by (simp add: hasProjectmap_def plainEnvironment_def)
  have cr: "crossProjectMilestoneRefs plainEnvironment s = s" for s
    using np by (simp add: crossProjectMilestoneRefs_def)
  have na: "\<not> True \<or> author_username (gitlabItem 1 ''entity'') = None \<or>
            created_at (gitlabItem 1 ''entity'') = None"
    by (simp add: gitlabItem_def asGitLabItem_def)
  have mm: "milestoneMap sampleConverter = Some ?mm"
    by (simp add: sampleConverter_def)
  have g: "map_get (parseInt ''42'') ?mm = None" "map_get 42 ?mm = None"
    by (simp_all add: parseInt_42 map_get_def)
  have tt: "\<forall>v\<in>set (map_values ?mm). title v \<noteq> ''v9''"
    by (simp add: map_values_def simpleItem_def)
  have w: "\<not> isWordChar (CHR '' '')" "\<forall>d\<in>set ''42''. isDigit d" "\<not> isDigit (hd '' now'')"
    by (simp_all add: isWordChar_def isDigit_def)
  have h1: "replaceAll titleRefRegex ?T ''see %42 now'' = ''see'' @ CHR '' '' # CHR ''%'' # ''42'' @ '' now''"
    by (simp add: regex_defs)
  have sh: "?str = ?pre @ CHR ''%'' # dq # ''v9'' @ dq # '' now''"
    by simp
  have mem: "(''v9'', length ?pre) \<in> set (matchAll titleRefRegex ?str)"
    by (simp add: matchAll_def regex_defs)
  have nm: "noMatchIn ?NR (Some (CHR '' '')) (CHR ''%'' # ''v9'') [sq]"
    by (simp add: regex_defs)
  have before: "replaceAll ?NR ?N (''see'' @ [CHR '' '']) = ''see ''"
    by (simp add: regex_defs)
  have afterN: "replaceFrom ?NR (\<lambda>x off. ?N x) 0 (Some (last ''42'')) '' now'' = '' now''"
    by (simp add: regex_defs)
  have beforeT: "replaceAll ?NR ?N (replaceAll titleRefRegex ?T ?pre) = ?pre"
    by (simp add: regex_defs)
  have afterT: "replaceFrom ?NR (\<lambda>x off. ?N x) 0 (Some sq)
      (replaceFrom titleRefRegex (\<lambda>x off. ?T x) 0 (Some dq) '' now'') = '' now''"
    by (simp add: regex_defs)
  note t = milestone_deleted_reference[where env = plainEnvironment and conv = sampleConverter
      and mm = ?mm and str = "''see %42 now''" and pre = "''see''" and c = "CHR '' ''"
      and ds = "''42''" and rest = "'' now''" and str' = ?str and pre' = ?pre and ttl = "''v9''"
      and rest' = "'' now''" and add_line = True and item = "gitlabItem 1 ''entity''"]
  have r1: "convertMilestoneRefs plainEnvironment sampleConverter ''see %42 now''
     = ''see '' @ [sq] @ ''Reference to deleted milestone %42'' @ [sq] @ '' now''"
    using t w mm g h1 before afterN unfolding cr by simp
  have r2: "convertMilestoneRefs plainEnvironment sampleConverter ?str
     = ''say '' @ [dq] @ ''hi'' @ [dq] @ '' and see '' @ [sq] @
       ''Reference to deleted milestone %v9'' @ [sq] @ '' now''"
  proof -
    have "convertMilestoneRefs plainEnvironment sampleConverter ?str
        = replaceAll ?NR ?N (replaceAll titleRefRegex ?T ?pre) @
          [sq] @ ''Reference to deleted milestone %'' @ ''v9'' @ [sq] @
          replaceFrom ?NR (\<lambda>x off. ?N x) 0 (Some sq)
            (replaceFrom titleRefRegex (\<lambda>x off. ?T x) 0 (Some dq) '' now'')"
      using t sh mem mm tt nm unfolding cr by blast
    then show ?thesis unfolding beforeT afterT by simp
  qed
  have r3: "fst (convertBody plainEnvironment sampleConverter ''see %42'' (gitlabItem 1 ''entity'') True)
     = ''see '' @ [sq] @ ''Reference to deleted milestone %42'' @ [sq]"
    using t np na mm g by blast
  have r4: "fst (convertBody plainEnvironment sampleConverter (''see %'' @ [dq] @ ''v9'' @ [dq])
          (gitlabItem 1 ''entity'') True)
     = ''see '' @ [sq] @ ''Reference to deleted milestone %v9'' @ [sq]"
    using t np na mm tt by blast
  from r1 r2 r3 r4 show ?thesis by (intro conjI)
qed

section \<open>References at the start of the text\<close>

lemma keepsPrefix_replaceFrom:
  "pre \<noteq> [] \<Longrightarrow> (\<And>rest. noMatchIn re None pre rest) \<Longrightarrow>
   keepsPrefix pre (replaceFrom re f 0 None)"
  unfolding keepsPrefix_def
proof
  fix rest
  assume "pre \<noteq> []" "\<And>rest. noMatchIn re None pre rest"
  then have "replaceFrom re f 0 None (pre @ rest)
      = pre @ replaceFrom re f (0 + length pre) (Some (last pre)) rest"
    by (intro replaceFrom_prefix)
  then show "\<exists>rest'. replaceFrom re f 0 None (pre @ rest) = pre @ rest'" by blast
qed

lemma keepsPrefix_replaceAll:
  "pre \<noteq> [] \<Longrightarrow> (\<And>rest. noMatchIn re None pre rest) \<Longrightarrow> keepsPrefix pre (replaceAll re f)"
  using keepsPrefix_replaceFrom[of pre re "\<lambda>g off. f g"]
  by (simp add: keepsPrefix_def replaceAll_def)

lemma keepsPrefix_id: "keepsPrefix pre (\<lambda>s. s)"
  by (simp add: keepsPrefix_def)

lemma keepsPrefix_comp:
  "keepsPrefix pre p \<Longrightarrow> keepsPrefix pre q \<Longrightarrow> keepsPrefix pre (\<lambda>s. q (p s))"
  unfolding keepsPrefix_def by metis

lemma keepsPrefix_if:
  "keepsPrefix pre p \<Longrightarrow> keepsPrefix pre (\<lambda>s. if b then p s else s)"
  by (simp add: keepsPrefix_def)

text \<open>Where the expressions cannot match.\<close>

lemma noMatchIn_user: "CHR ''@'' \<notin> set u \<Longrightarrow> noMatchIn (userRegex ks) prev u rest"
  by (induction u arbitrary: prev) (auto simp: userRegex_noAt)

lemma matchKey_length: "matchKey k s = Some mk \<Longrightarrow> length mk = length k"
  by (induction k s arbitrary: mk rule: matchKey.induct) (auto split: if_splits)

lemma matchKey_prefix:
  "matchKey k (u @ rest) = Some mk \<Longrightarrow> length u \<le> length k \<Longrightarrow>
   matchKey (take (length u) k) u \<noteq> None"
proof (induction k u arbitrary: mk rule: matchKey.induct)
  case (1 s)
  then show ?case by simp
next
  case (2 p ps)
  then show ?case by simp
next
  case (3 p ps c cs)
  from "3.prems"(1) obtain mk' where ok: "(if p = CHR ''.'' then \<not> isLineTerminator c else p = c)"
    and mk': "matchKey ps (cs @ rest) = Some mk'"
    by (auto split: if_splits)
  have "length cs \<le> length ps" using "3.prems"(2) by simp
  from "3.IH"[OF ok mk' this] show ?case using ok by auto
qed

lemma startsInside_tl: "\<not> startsInside k (a # u) \<Longrightarrow> \<not> startsInside k u"
  by simp

lemma matchProject_None:
  "\<forall>k\<in>set ks. matchAlternative sigil body k s = None \<Longrightarrow> matchProject sigil body ks i s = None"
  by (induction ks arbitrary: i) auto

lemma matchAlternative_inside:
  assumes k: "\<not> startsInside k (a # u)" and s: "sigil \<notin> set u"
  shows "matchAlternative sigil body k (a # u @ rest) = None"
proof (cases "matchKey k (a # u @ rest)")
  case None
  then show ?thesis by (simp add: matchAlternative_def)
next
  case (Some mk)
  have kne: "k \<noteq> []" using k by simp
  have len: "length mk = length k" using Some by (rule matchKey_length)
  have short: "length k < length (a # u)"
  proof (rule ccontr)
    assume "\<not> length k < length (a # u)"
    then have le: "length (a # u) \<le> length k" by simp
    have "matchKey k ((a # u) @ rest) = Some mk" using Some by simp
    from matchKey_prefix[OF this le]
    have "matchKey (take (length (a # u)) k) (a # u) \<noteq> None" .
    with le have "startsInside k (a # u)" by simp
    with k show False by simp
  qed
  obtain n where n: "length k = Suc n" using kne by (cases k) auto
  have nu: "n < length u" using short n by simp
  have d: "drop (length mk) (a # u @ rest) = (u ! n) # (drop (Suc n) u @ rest)"
    using nu by (simp add: len n Cons_nth_drop_Suc)
  have "u ! n \<noteq> sigil" using s nu nth_mem by fastforce
  then show ?thesis using Some d by (simp add: matchAlternative_def)
qed

lemma noMatchIn_project:
  assumes "\<forall>k\<in>set ks. \<not> startsInside k u" "sigil \<notin> set (tl u)"
  shows "noMatchIn (projectRegex sigil body ks) prev u rest"
  using assms
proof (induction u arbitrary: prev)
  case Nil
  then show ?case by simp
next
  case (Cons a u)
  have s: "sigil \<notin> set u" using Cons.prems(2) by simp
  have "\<forall>k\<in>set ks. matchAlternative sigil body k (a # u @ rest) = None"
    using Cons.prems(1) s matchAlternative_inside by blast
  then have "matchProject sigil body ks 0 (a # u @ rest) = None"
    by (rule matchProject_None)
  then have here: "projectRegex sigil body ks prev (a # u @ rest) = None"
    by (simp add: projectRegex_def)
  have k': "\<forall>k\<in>set ks. \<not> startsInside k u"
    using Cons.prems(1) startsInside_tl by blast
  have s': "sigil \<notin> set (tl u)" using s by (cases u) auto
  from Cons.IH[OF k' s'] here show ?case by simp
qed

lemma noMatchIn_numberRef_start:
  "g \<notin> set u \<Longrightarrow> noMatchIn (numberRefRegex g) None (a # u) rest"
  by (simp add: noMatchIn_numberRef) (simp add: numberRefRegex_def nonWordBefore_def)

lemma noMatchIn_titleRef_inside:
  "CHR ''%'' \<notin> set u \<Longrightarrow> noMatchIn titleRefRegex prev u rest"
  by (induction u arbitrary: prev) (auto simp: titleRefRegex_def)

lemma noMatchIn_titleRef_start:
  "CHR ''%'' \<notin> set u \<Longrightarrow> noMatchIn titleRefRegex None (a # u) rest"
  by (simp add: noMatchIn_titleRef_inside) (simp add: titleRefRegex_def nonWordBefore_def)

lemma attachment_first:
  "a \<noteq> CHR ''['' \<Longrightarrow> a \<noteq> CHR ''!'' \<Longrightarrow> attachmentRegex prev (a # s) = None"
  by (simp add: attachmentRegex_def matchLink_def)

lemma attachment_bang:
  "b \<noteq> CHR ''['' \<Longrightarrow> attachmentRegex prev (CHR ''!'' # b # s) = None"
  by (simp add: attachmentRegex_def matchLink_def)

lemma noMatchIn_attachment_inside:
  "CHR ''['' \<notin> set u \<Longrightarrow> CHR ''!'' \<notin> set u \<Longrightarrow> noMatchIn attachmentRegex prev u rest"
  by (induction u arbitrary: prev) (auto simp: attachment_first)

lemma noMatchIn_attachment_start:
  assumes "a \<noteq> CHR ''[''" "u \<noteq> []" "CHR ''['' \<notin> set u" "CHR ''!'' \<notin> set u"
  shows "noMatchIn attachmentRegex None (a # u) rest"
proof -
  obtain b u' where u: "u = b # u'" using assms(2) by (cases u) auto
  have "attachmentRegex None (a # u @ rest) = None"
  proof (cases "a = CHR ''!''")
    case True
    have "b \<noteq> CHR ''[''" using assms(3) u by auto
    from attachment_bang[OF this, of None "u' @ rest"] show ?thesis using True u by simp
  next
    case False
    then show ?thesis using assms(1) by (simp add: attachment_first)
  qed
  then show ?thesis using noMatchIn_attachment_inside[OF assms(3,4)] by simp
qed

lemma convertAttachments_text:
  "fst (convertAttachments env conv body)
     = replaceFrom attachmentRegex
         (\<lambda>g offset. orUndefined (map_get offset
            (snd (foldl (registerAttachment env) (attachmentMap conv, [])
                    (matchAll attachmentRegex body))))) 0 None body"
  by (simp add: convertAttachments_def split: prod.splits)

lemma keepsPrefix_attachments:
  assumes "a \<noteq> CHR ''[''" "u \<noteq> []" "CHR ''['' \<notin> set u" "CHR ''!'' \<notin> set u"
  shows "keepsPrefix (a # u) (\<lambda>s. fst (convertAttachments env conv s))"
  unfolding keepsPrefix_def
proof
  fix rest
  let ?f = "\<lambda>g offset. orUndefined (map_get offset
            (snd (foldl (registerAttachment env) (attachmentMap conv, [])
                    (matchAll attachmentRegex ((a # u) @ rest)))))"
  have "replaceFrom attachmentRegex ?f 0 None ((a # u) @ rest)
      = (a # u) @ replaceFrom attachmentRegex ?f (0 + length (a # u)) (Some (last (a # u))) rest"
    using noMatchIn_attachment_start[OF assms] by (intro replaceFrom_prefix) simp_all
  then show "\<exists>rest'. fst (convertAttachments env conv ((a # u) @ rest)) = (a # u) @ rest'"
    unfolding convertAttachments_text by blast
qed


lemma keepsPrefix_passes:
  assumes s: "s \<in> {CHR ''#'', CHR ''%'', CHR ''!''}"
    and body: "body \<noteq> []"
      "set body \<inter> {CHR ''@'', CHR ''#'', CHR ''%'', CHR ''!'', CHR ''[''} = {}"
    and keys: "\<forall>k\<in>set (projectKeys env). \<not> startsInside k (s # body)"
  shows "keepsPrefix (s # body) (convertUsers env)"
    and "keepsPrefix (s # body) (convertIssueRefs env conv)"
    and "keepsPrefix (s # body) (convertMilestoneRefs env conv)"
    and "keepsPrefix (s # body) (convertMergeRequestRefs env conv)"
    and "keepsPrefix (s # body) (\<lambda>str. fst (convertAttachments env conv str))"
proof -
  let ?pre = "s # body"
  have ne: "?pre \<noteq> []" by simp
  have at: "CHR ''@'' \<notin> set ?pre" using s body(2) by auto
  have inside: "CHR ''#'' \<notin> set body" "CHR ''%'' \<notin> set body" "CHR ''!'' \<notin> set body"
    "CHR ''['' \<notin> set body"
    using body(2) by auto
  have sb: "s \<noteq> CHR ''[''" using s by auto
  have user: "keepsPrefix ?pre (replaceAll (userRegex ks) f)" for ks f
    using ne noMatchIn_user[OF at] by (rule keepsPrefix_replaceAll)
  have proj: "keepsPrefix ?pre (replaceAll (projectRegex g b (projectKeys env)) f)"
    if "g \<notin> set body" for g b f
  proof -
    have "g \<notin> set (tl ?pre)" using that by simp
    from ne noMatchIn_project[OF keys this] show ?thesis by (rule keepsPrefix_replaceAll)
  qed
  have num: "keepsPrefix ?pre (replaceAll (numberRefRegex g) f)"
    if "g \<notin> set body" for g f
    using ne noMatchIn_numberRef_start[OF that] by (rule keepsPrefix_replaceAll)
  have ttl: "keepsPrefix ?pre (replaceAll titleRefRegex f)" for f
    using ne noMatchIn_titleRef_start[OF inside(2)] by (rule keepsPrefix_replaceAll)
  show "keepsPrefix ?pre (convertUsers env)"
    using user by (simp add: convertUsers_def keepsPrefix_def)
  show "keepsPrefix ?pre (convertIssueRefs env conv)"
  proof (cases "hasProjectmap env")
    case True
    have "keepsPrefix ?pre (\<lambda>str. replaceAll (numberRefRegex (CHR ''#'')) (issueReplacer conv)
        (replaceAll (projectRegex (CHR ''#'') matchDigits (projectKeys env)) (projectReplacer env) str))"
      by (rule keepsPrefix_comp[OF proj[OF inside(1)] num[OF inside(1)]])
    then show ?thesis using True by (simp add: convertIssueRefs_def keepsPrefix_def)
  next
    case False
    then show ?thesis using num[OF inside(1)] by (simp add: convertIssueRefs_def keepsPrefix_def)
  qed
  show "keepsPrefix ?pre (convertMilestoneRefs env conv)"
  proof (cases "hasProjectmap env")
    case True
    have "keepsPrefix ?pre (\<lambda>str.
        replaceAll (numberRefRegex (CHR ''%'')) (\<lambda>p1. milestoneReplacer env conv p1 [] [])
          (replaceAll titleRefRegex (\<lambda>p1. milestoneReplacer env conv [] p1 [])
            (replaceAll (projectRegex (CHR ''%'') matchDigits (projectKeys env))
               (projectNumberReplacer env)
               (replaceAll (projectRegex (CHR ''%'') quotedBody (projectKeys env))
                  (projectTitleReplacer env) str))))"
      by (rule keepsPrefix_comp[OF keepsPrefix_comp[OF keepsPrefix_comp[OF
            proj[OF inside(2)] proj[OF inside(2)]] ttl]
            num[OF inside(2)]])
    then show ?thesis using True by (simp add: convertMilestoneRefs_def keepsPrefix_def)
  next
    case False
    have "keepsPrefix ?pre (\<lambda>str.
        replaceAll (numberRefRegex (CHR ''%'')) (\<lambda>p1. milestoneReplacer env conv p1 [] [])
          (replaceAll titleRefRegex (\<lambda>p1. milestoneReplacer env conv [] p1 []) str))"
      by (rule keepsPrefix_comp[OF ttl num[OF inside(2)]])
    then show ?thesis using False by (simp add: convertMilestoneRefs_def keepsPrefix_def)
  qed
  show "keepsPrefix ?pre (convertMergeRequestRefs env conv)"
  proof (cases "hasProjectmap env")
    case True
    have "keepsPrefix ?pre (\<lambda>str. replaceAll (numberRefRegex (CHR ''!'')) (mrReplacer conv)
        (replaceAll (projectRegex (CHR ''!'') matchDigits (projectKeys env)) (projectReplacer env) str))"
      by (rule keepsPrefix_comp[OF proj[OF inside(3)] num[OF inside(3)]])
    then show ?thesis using True by (simp add: convertMergeRequestRefs_def keepsPrefix_def)
  next
    case False
    then show ?thesis using num[OF inside(3)]
      by (simp add: convertMergeRequestRefs_def keepsPrefix_def)
  qed
  show "keepsPrefix ?pre (\<lambda>str. fst (convertAttachments env conv str))"
    using sb body(1) inside(4) inside(3) by (rule keepsPrefix_attachments)
qed

text \<open>
  C10. As stated the claim fails: a pattern that matches inside a leading reference
  rewrites that part of it. The entity has no author, so no attribution line is
  prepended; the maps send issue 3 to 42, merge request 2 to 50 and milestone 1 to
  milestone 7. Then \<open>%"Sprint #3" is late\<close> becomes \<open>%"Sprint #42" is late\<close>,
  \<open>%"after !2"\<close> becomes \<open>%"after #50"\<close>, in \<open>%"part of %1"\<close> the \<open>%1\<close> becomes a link, in
  \<open>%"see [x](/uploads/a.png)"\<close> the attachment link is rewritten, and with \<open>bob\<close> in the
  user table \<open>%"ask @bob"\<close> becomes \<open>%"ask @robert"\<close>. The cross-project patterns have no
  lookbehind: with the project \<open>12/tools\<close> in the table, the text \<open>#12/tools#5\<close> becomes
  \<open>#org/tools#5\<close>, and the leading \<open>#12\<close> is gone.
\<close>

theorem leading_reference_counterexample:
  "fst (convertBody plainEnvironment sampleConverter
          (''%'' @ [dq] @ ''Sprint #3'' @ [dq] @ '' is late'') (gitlabItem 1 ''entity'') True)
     = ''%'' @ [dq] @ ''Sprint #42'' @ [dq] @ '' is late'' \<and>
   fst (convertBody plainEnvironment sampleConverter
          (''%'' @ [dq] @ ''after !2'' @ [dq]) (gitlabItem 1 ''entity'') True)
     = ''%'' @ [dq] @ ''after #50'' @ [dq] \<and>
   fst (convertBody plainEnvironment sampleConverter
          (''%'' @ [dq] @ ''part of %1'' @ [dq]) (gitlabItem 1 ''entity'') True)
     = ''%'' @ [dq] @ ''part of [v1](https://github.com/owner/repo/milestone/7)'' @ [dq] \<and>
   fst (convertBody plainEnvironment sampleConverter
          (''%'' @ [dq] @ ''see [x](/uploads/a.png)'' @ [dq]) (gitlabItem 1 ''entity'') True)
     = ''%'' @ [dq] @ ''see [x](https://gitlab.com/group/project/uploads/a.png)'' @ [dq] \<and>
   fst (convertBody (plainEnvironment\<lparr>usermap := Some [(''bob'', ''robert'')]\<rparr>) sampleConverter
          (''%'' @ [dq] @ ''ask @bob'' @ [dq]) (gitlabItem 1 ''entity'') True)
     = ''%'' @ [dq] @ ''ask @robert'' @ [dq] \<and>
   fst (convertBody (plainEnvironment\<lparr>projectmap := Some [(''12/tools'', ''org/tools'')]\<rparr>)
          sampleConverter ''#12/tools#5'' (gitlabItem 1 ''entity'') True)
     = ''#org/tools#5''"
  by code_simp

text \<open>
  C10, amended. No attribution line is prepended (the flag is off, or the entity has
  no author or no creation time). The text begins with a same-project reference: a
  sigil \<open>#\<close>, \<open>%\<close> or \<open>!\<close> and a body, the digits of \<open>#n\<close>, \<open>%n\<close>, \<open>!n\<close> or the quoted
  title of \<open>%"title"\<close>, where the body holds none of the characters \<open>@ # % ! [\<close> that
  begin a pattern (digits never do). No key of the project table is empty or begins
  with an end piece of the reference. Then the output of \<open>convertBody\<close> begins with the
  same reference, whatever the identifier maps, the user table and the attachment map
  hold: no pattern matches at position 0 or inside it.
\<close>

theorem leading_reference_unchanged:
  assumes "\<not> add_line \<or> author_username item = None \<or> created_at item = None"
    and "s \<in> {CHR ''#'', CHR ''%'', CHR ''!''}"
    and "body \<noteq> []"
    and "set body \<inter> {CHR ''@'', CHR ''#'', CHR ''%'', CHR ''!'', CHR ''[''} = {}"
    and "\<forall>k\<in>set (projectKeys env). \<not> startsInside k (s # body)"
  shows "\<exists>rest'. fst (convertBody env conv (s # body @ rest) item add_line) = s # body @ rest'"
proof -
  note k = keepsPrefix_passes[OF assms(2-5)]
  have all: "keepsPrefix (s # body) (\<lambda>str.
      (if transferAttachments env
       then fst (convertAttachments env conv
              (convertMergeRequestRefs env conv (convertMilestoneRefs env conv
                (convertIssueRefs env conv (convertUsers env str)))))
       else convertMergeRequestRefs env conv (convertMilestoneRefs env conv
                (convertIssueRefs env conv (convertUsers env str)))))"
  proof (cases "transferAttachments env")
    case True
    have "keepsPrefix (s # body) (\<lambda>str. fst (convertAttachments env conv
              (convertMergeRequestRefs env conv (convertMilestoneRefs env conv
                (convertIssueRefs env conv (convertUsers env str))))))"
      by (rule keepsPrefix_comp[OF keepsPrefix_comp[OF keepsPrefix_comp[OF
            keepsPrefix_comp[OF k(1) k(2)] k(3)] k(4)] k(5)])
    then show ?thesis using True by simp
  next
    case False
    have "keepsPrefix (s # body) (\<lambda>str.
              convertMergeRequestRefs env conv (convertMilestoneRefs env conv
                (convertIssueRefs env conv (convertUsers env str))))"
      by (rule keepsPrefix_comp[OF keepsPrefix_comp[OF keepsPrefix_comp[OF k(1) k(2)] k(3)] k(4)])
    then show ?thesis using False by simp
  qed
  have cb: "fst (convertBody env conv str item add_line) =
      (if transferAttachments env
       then fst (convertAttachments env conv
              (convertMergeRequestRefs env conv (convertMilestoneRefs env conv
                (convertIssueRefs env conv (convertUsers env str)))))
       else convertMergeRequestRefs env conv (convertMilestoneRefs env conv
                (convertIssueRefs env conv (convertUsers env str))))" for str
    by (simp add: convertBody_def Let_def no_attribution[OF assms(1)])
  from all obtain rest' where
    "fst (convertBody env conv ((s # body) @ rest) item add_line) = (s # body) @ rest'"
    unfolding keepsPrefix_def cb by blast
  then show ?thesis by auto
qed

theorem leading_reference_unchanged_witness:
  "(\<exists>rest'. fst (convertBody oneProjectEnvironment sampleConverter ''#3 and #3''
                 (gitlabItem 1 ''entity'') True) = ''#3'' @ rest') \<and>
   fst (convertBody oneProjectEnvironment sampleConverter ''#3 and #3''
          (gitlabItem 1 ''entity'') True) = ''#3 and #42'' \<and>
   fst (convertBody oneProjectEnvironment sampleConverter ''#3 and #3'' authoredItem True)
     = ''In GitLab by @bob on 2020-01-01'' @ [nl, nl] @ ''#42 and #42''"
proof -
  have na: "\<not> True \<or> author_username (gitlabItem 1 ''entity'') = None \<or>
            created_at (gitlabItem 1 ''entity'') = None"
    by (simp add: gitlabItem_def asGitLabItem_def)
  have keys: "\<forall>k\<in>set (projectKeys oneProjectEnvironment). \<not> startsInside k (CHR ''#'' # ''3'')"
    by (simp add: projectKeys_def oneProjectEnvironment_def plainEnvironment_def tableOf_def)
  have "\<exists>rest'. fst (convertBody oneProjectEnvironment sampleConverter
          (CHR ''#'' # ''3'' @ '' and #3'') (gitlabItem 1 ''entity'') True)
        = CHR ''#'' # ''3'' @ rest'"
    using na keys by (intro leading_reference_unchanged) simp_all
  then have a: "\<exists>rest'. fst (convertBody oneProjectEnvironment sampleConverter ''#3 and #3''
                 (gitlabItem 1 ''entity'') True) = ''#3'' @ rest'"
    by simp
  have b: "fst (convertBody oneProjectEnvironment sampleConverter ''#3 and #3''
          (gitlabItem 1 ''entity'') True) = ''#3 and #42''"
    by code_simp
  have c: "fst (convertBody oneProjectEnvironment sampleConverter ''#3 and #3'' authoredItem True)
     = ''In GitLab by @bob on 2020-01-01'' @ [nl, nl] @ ''#42 and #42''"
    by code_simp
  from a b c show ?thesis by (intro conjI)
qed

section \<open>The attachment map\<close>

lemma matchAllFrom_distinct: "distinct (map snd (matchAllFrom re off prev s))"
  using matchAllFrom_offsets[of re off prev s] strict_sorted_iff by blast

lemma replaceFrom_cong:
  "(\<And>g j. (g, j) \<in> set (matchAllFrom re off prev s) \<Longrightarrow> f g j = f' g j) \<Longrightarrow>
   replaceFrom re f off prev s = replaceFrom re f' off prev s"
proof (induction "length s" arbitrary: s off prev rule: less_induct)
  case less
  show ?case
  proof (cases s)
    case Nil
    then show ?thesis by simp
  next
    case (Cons c cs)
    have l1: "length cs < length s" using Cons by simp
    show ?thesis
    proof (cases "re prev (c # cs)")
      case None
      have "replaceFrom re f (off + 1) (Some c) cs = replaceFrom re f' (off + 1) (Some c) cs"
        using less.prems None Cons by (intro less.hyps[OF l1]) simp
      then show ?thesis using None Cons by simp
    next
      case (Some gm)
      obtain g m where gm: "gm = (g, m)" by (cases gm)
      show ?thesis
      proof (cases "m = []")
        case True
        have "replaceFrom re f (off + 1) (Some c) cs = replaceFrom re f' (off + 1) (Some c) cs"
          using less.prems Some gm True Cons by (intro less.hyps[OF l1]) simp
        then show ?thesis using Some gm True Cons by simp
      next
        case False
        let ?r = "drop (length m) (c # cs)"
        have l: "length ?r < length s" using False Cons by simp
        have e: "matchAllFrom re off prev s
           = (g, off) # matchAllFrom re (off + length m) (Some (last m)) ?r"
          using Cons Some gm False by simp
        have "replaceFrom re f (off + length m) (Some (last m)) ?r
            = replaceFrom re f' (off + length m) (Some (last m)) ?r"
          using less.prems e by (intro less.hyps[OF l]) simp
        moreover have "f g off = f' g off" using less.prems e by simp
        ultimately show ?thesis using Some gm False Cons by simp
      qed
    qed
  qed
qed

lemma map_keys_map_set:
  "map_keys (map_set k v m) = (if k \<in> set (map_keys m) then map_keys m else map_keys m @ [k])"
proof (induction m)
  case Nil
  then show ?case by (simp add: map_keys_def)
next
  case (Cons x m)
  obtain a b where x: "x = (a, b)" by (cases x)
  show ?case
  proof (cases "a = k")
    case True
    then show ?thesis using x by (simp add: map_keys_def)
  next
    case False
    then show ?thesis using x Cons by (simp add: map_keys_def)
  qed
qed

lemma distinct_map_set: "distinct (map_keys m) \<Longrightarrow> distinct (map_keys (map_set k v m))"
  by (simp add: map_keys_map_set)

lemma map_get_map_set: "map_get k' (map_set k v m) = (if k' = k then Some v else map_get k' m)"
  by (simp add: map_get_def map_of_map_set)

text \<open>The two components of the first pass of \<open>convertAttachments\<close>.\<close>

lemma fst_register:
  "fst (foldl (registerAttachment env) (am, ota) ms)
     = foldl (\<lambda>am g. map_set (origin (preprocessAttachment env (snd (snd (fst g)))))
                (preprocessAttachment env (snd (snd (fst g)))) am) am ms"
  by (induction ms arbitrary: am ota) (auto simp: registerAttachment_def Let_def split: prod.splits)

lemma snd_register:
  "snd (foldl (registerAttachment env) (am, ota) ms)
     = foldl (\<lambda>ota g. map_set (snd g) (attachmentLink env (fst g)) ota) ota ms"
  by (induction ms arbitrary: am ota)
    (auto simp: registerAttachment_def attachmentLink_def Let_def split: prod.splits)

lemma offsets_lookup:
  "distinct (map snd ms) \<Longrightarrow> (g, j) \<in> set ms \<Longrightarrow>
   map_get j (foldl (\<lambda>ota g. map_set (snd g) (h (fst g)) ota) ota ms) = Some (h g)"
proof (induction ms arbitrary: ota)
  case Nil
  then show ?case by simp
next
  case (Cons x xs)
  have keep: "map_get k (foldl (\<lambda>ota g. map_set (snd g) (h (fst g)) ota) m ys) = map_get k m"
    if "k \<notin> snd ` set ys" for k m ys
    using that by (induction ys arbitrary: m) (auto simp: map_get_map_set)
  show ?case
  proof (cases "(g, j) \<in> set xs")
    case True
    then show ?thesis using Cons by simp
  next
    case False
    then have x: "x = (g, j)" using Cons.prems(2) by simp
    have "j \<notin> snd ` set xs" using Cons.prems(1) x by auto
    from keep[OF this] show ?thesis using x by (simp add: map_get_map_set)
  qed
qed

lemma convertAttachments_output:
  "fst (convertAttachments env conv body) = replaceAll attachmentRegex (attachmentLink env) body"
proof -
  let ?ms = "matchAll attachmentRegex body"
  let ?ota = "snd (foldl (registerAttachment env) (attachmentMap conv, []) ?ms)"
  have "replaceFrom attachmentRegex (\<lambda>g offset. orUndefined (map_get offset ?ota)) 0 None body
      = replaceFrom attachmentRegex (\<lambda>g offset. attachmentLink env g) 0 None body"
  proof (rule replaceFrom_cong)
    fix g j
    assume "(g, j) \<in> set (matchAllFrom attachmentRegex 0 None body)"
    then have "map_get j ?ota = Some (attachmentLink env g)"
      unfolding snd_register matchAll_def
      using matchAllFrom_distinct[of attachmentRegex 0 None body]
      by (intro offsets_lookup)
    then show "orUndefined (map_get j ?ota) = attachmentLink env g"
      by (simp add: orUndefined_def)
  qed
  then show ?thesis
    unfolding convertAttachments_text replaceAll_def .
qed

lemma attachmentMap_first_pass:
  "attachmentMap (snd (convertAttachments env conv body))
     = fst (foldl (registerAttachment env) (attachmentMap conv, []) (matchAll attachmentRegex body))"
  by (simp add: convertAttachments_def split: prod.splits)

lemma foldl_urls:
  fixes ms :: "((string \<times> string \<times> string) \<times> nat) list"
  shows "foldl (\<lambda>am g. map_set (origin (preprocessAttachment env (snd (snd (fst g)))))
                (preprocessAttachment env (snd (snd (fst g)))) am) am ms
      = foldl (\<lambda>am u. map_set (origin (preprocessAttachment env u)) (preprocessAttachment env u) am)
          am (map (\<lambda>((pre, name, url), offset). url) ms)"
  by (induction ms arbitrary: am) (auto split: prod.splits)

lemma attachmentMap_convertAttachments:
  "attachmentMap (snd (convertAttachments env conv body))
     = foldl (\<lambda>am u. map_set (origin (preprocessAttachment env u)) (preprocessAttachment env u) am)
         (attachmentMap conv) (attachmentUrls body)"
  unfolding attachmentMap_first_pass fst_register foldl_urls attachmentUrls_def ..

lemma others_convertAttachments:
  "milestoneMap (snd (convertAttachments env conv body)) = milestoneMap conv"
  "issueMap (snd (convertAttachments env conv body)) = issueMap conv"
  "mrMap (snd (convertAttachments env conv body)) = mrMap conv"
  by (simp_all add: convertAttachments_def split: prod.splits)


lemma run_outputs:
  "fst (convertAttachmentsAll env conv bodies)
     = map (replaceAll attachmentRegex (attachmentLink env)) bodies"
proof (induction bodies arbitrary: conv)
  case Nil
  then show ?case by simp
next
  case (Cons b bs)
  obtain out conv' where c: "convertAttachments env conv b = (out, conv')"
    by (cases "convertAttachments env conv b")
  obtain outs conv'' where r: "convertAttachmentsAll env conv' bs = (outs, conv'')"
    by (cases "convertAttachmentsAll env conv' bs")
  have "out = replaceAll attachmentRegex (attachmentLink env) b"
    using convertAttachments_output[of env conv b] c by simp
  then show ?case using Cons[of conv'] c r by simp
qed

lemma run_attachmentMap:
  "attachmentMap (snd (convertAttachmentsAll env conv bodies))
     = foldl (\<lambda>am u. map_set (origin (preprocessAttachment env u)) (preprocessAttachment env u) am)
         (attachmentMap conv) (concat (map attachmentUrls bodies))"
proof (induction bodies arbitrary: conv)
  case Nil
  then show ?case by simp
next
  case (Cons b bs)
  obtain out conv' where c: "convertAttachments env conv b = (out, conv')"
    by (cases "convertAttachments env conv b")
  have "attachmentMap conv'
     = foldl (\<lambda>am u. map_set (origin (preprocessAttachment env u)) (preprocessAttachment env u) am)
         (attachmentMap conv) (attachmentUrls b)"
    using attachmentMap_convertAttachments[of env conv b] c by simp
  moreover obtain outs conv'' where r: "convertAttachmentsAll env conv' bs = (outs, conv'')"
    by (cases "convertAttachmentsAll env conv' bs")
  ultimately show ?case using Cons[of conv'] c by simp
qed

lemma registered:
  assumes "\<forall>u. origin (pre u) = u"
  shows "map_get k (foldl (\<lambda>am u. map_set (origin (pre u)) (pre u) am) am us)
           = (if k \<in> set us then Some (pre k) else map_get k am)"
  using assms by (induction us arbitrary: am) (auto simp: map_get_map_set)

lemma registered_distinct:
  "distinct (map_keys am) \<Longrightarrow>
   distinct (map_keys (foldl (\<lambda>am u. map_set (origin (pre u)) (pre u) am) am us))"
  by (induction us arbitrary: am) (auto simp: distinct_map_set)

lemma one_entry:
  "distinct (map_keys m) \<Longrightarrow> map_get k m = Some v \<Longrightarrow> filter (\<lambda>e. fst e = k) m = [(k, v)]"
proof (induction m)
  case Nil
  then show ?case by (simp add: map_get_def)
next
  case (Cons x m)
  obtain a b where x: "x = (a, b)" by (cases x)
  show ?case
  proof (cases "a = k")
    case True
    then have "k \<notin> fst ` set m" using Cons.prems(1) x by (simp add: map_keys_def)
    then have "filter (\<lambda>e. fst e = k) m = []" by (auto simp: filter_empty_conv)
    then show ?thesis using True x Cons.prems(2) by (simp add: map_get_def)
  next
    case False
    then show ?thesis using Cons x by (simp add: map_get_def map_keys_def)
  qed
qed

text \<open>
  C7. The bodies of one run go through \<open>convertAttachments\<close> one after another. For a
  storage helper that keeps the URL as the origin (both helpers of \<open>storageHelper.ts\<close>
  do), and an attachment map without repeated keys at the start (it is empty when the
  converter is made): every URL matched in one of the bodies has exactly one entry in
  the final attachment map, the metadata the helper computes for that URL; and every
  body comes back with each attachment reference replaced by the link to the
  destination the helper computes for its URL, a function of the URL alone: all
  occurrences of one origin, in all bodies, point to the same destination.
\<close>

theorem attachment_registry:
  assumes "\<forall>u. origin (preprocessAttachment env u) = u"
    and "distinct (map_keys (attachmentMap conv))"
  shows "(\<forall>body\<in>set bodies. \<forall>u\<in>set (attachmentUrls body).
            filter (\<lambda>e. fst e = u) (attachmentMap (snd (convertAttachmentsAll env conv bodies)))
              = [(u, preprocessAttachment env u)]) \<and>
         fst (convertAttachmentsAll env conv bodies)
           = map (replaceAll attachmentRegex
                   (\<lambda>(pre, name, url). pre @ ''['' @ name @ '']('' @
                      destination (preprocessAttachment env url) @ '')'')) bodies"
proof -
  let ?final = "attachmentMap (snd (convertAttachmentsAll env conv bodies))"
  have d: "distinct (map_keys ?final)"
    unfolding run_attachmentMap using assms(2) by (rule registered_distinct)
  have g: "map_get u ?final = Some (preprocessAttachment env u)"
    if "body \<in> set bodies" "u \<in> set (attachmentUrls body)" for body u
  proof -
    have "u \<in> set (concat (map attachmentUrls bodies))" using that by auto
    then show ?thesis
      unfolding run_attachmentMap using registered[OF assms(1)] by simp
  qed
  have a: "\<forall>body\<in>set bodies. \<forall>u\<in>set (attachmentUrls body).
            filter (\<lambda>e. fst e = u) ?final = [(u, preprocessAttachment env u)]"
    using one_entry[OF d g] by blast
  have l: "attachmentLink env = (\<lambda>(pre, name, url). pre @ ''['' @ name @ '']('' @
                      destination (preprocessAttachment env url) @ '')'')"
    by (auto simp: attachmentLink_def fun_eq_iff)
  have b: "fst (convertAttachmentsAll env conv bodies)
           = map (replaceAll attachmentRegex
                   (\<lambda>(pre, name, url). pre @ ''['' @ name @ '']('' @
                      destination (preprocessAttachment env url) @ '')'')) bodies"
    using run_outputs[of env conv bodies] unfolding l .
  from a b show ?thesis by (intro conjI)
qed

theorem attachment_registry_witness:
  "attachmentUrls ''![x](/uploads/a.png)'' = [''/uploads/a.png''] \<and>
   filter (\<lambda>e. fst e = ''/uploads/a.png'')
     (attachmentMap (snd (convertAttachmentsAll plainEnvironment sampleConverter
        [''![x](/uploads/a.png)'', ''see [x](/uploads/a.png) and ![x](/uploads/a.png)''])))
     = [(''/uploads/a.png'',
         \<lparr>origin = ''/uploads/a.png'',
          destination = ''https://gitlab.com/group/project/uploads/a.png'', mimeType = None\<rparr>)] \<and>
   convertAttachmentsAll plainEnvironment sampleConverter
        [''![x](/uploads/a.png)'', ''see [x](/uploads/a.png) and ![x](/uploads/a.png)'']
     = ([''![x](https://gitlab.com/group/project/uploads/a.png)'',
         ''see [x](https://gitlab.com/group/project/uploads/a.png) and ![x](https://gitlab.com/group/project/uploads/a.png)''],
        sampleConverter\<lparr>attachmentMap :=
          [(''/uploads/a.png'',
            \<lparr>origin = ''/uploads/a.png'',
             destination = ''https://gitlab.com/group/project/uploads/a.png'', mimeType = None\<rparr>)]\<rparr>)"
proof -
  let ?bodies = "[''![x](/uploads/a.png)'', ''see [x](/uploads/a.png) and ![x](/uploads/a.png)'']"
  have o: "\<forall>u. origin (preprocessAttachment plainEnvironment u) = u"
    by (simp add: plainEnvironment_def PassThroughStorageHelper_def)
  have d: "distinct (map_keys (attachmentMap sampleConverter))"
    by (simp add: sampleConverter_def map_keys_def)
  have u: "attachmentUrls ''![x](/uploads/a.png)'' = [''/uploads/a.png'']"
    by code_simp
  have p: "preprocessAttachment plainEnvironment ''/uploads/a.png''
     = \<lparr>origin = ''/uploads/a.png'',
        destination = ''https://gitlab.com/group/project/uploads/a.png'', mimeType = None\<rparr>"
    by code_simp
  have a: "filter (\<lambda>e. fst e = ''/uploads/a.png'')
     (attachmentMap (snd (convertAttachmentsAll plainEnvironment sampleConverter ?bodies)))
     = [(''/uploads/a.png'', preprocessAttachment plainEnvironment ''/uploads/a.png'')]"
    using attachment_registry[OF o d, of ?bodies] u by simp
  have c: "convertAttachmentsAll plainEnvironment sampleConverter ?bodies
     = ([''![x](https://gitlab.com/group/project/uploads/a.png)'',
         ''see [x](https://gitlab.com/group/project/uploads/a.png) and ![x](https://gitlab.com/group/project/uploads/a.png)''],
        sampleConverter\<lparr>attachmentMap :=
          [(''/uploads/a.png'',
            \<lparr>origin = ''/uploads/a.png'',
             destination = ''https://gitlab.com/group/project/uploads/a.png'', mimeType = None\<rparr>)]\<rparr>)"
    by code_simp
  from u a[unfolded p] c show ?thesis by (intro conjI)
qed

section \<open>The rewriter is a function of its inputs\<close>

text \<open>
  C9. The one piece of state a call of \<open>convertBody\<close> changes is the attachment map.
  The output text does not depend on it: two converters with the same three identifier
  maps give the same text for the same settings, storage helper, input text, entity
  and flag, whatever their attachment maps hold (so an earlier call cannot change what
  a later one returns).
\<close>

theorem convertBody_deterministic:
  assumes "milestoneMap conv1 = milestoneMap conv2" "issueMap conv1 = issueMap conv2"
    "mrMap conv1 = mrMap conv2"
  shows "fst (convertBody env conv1 str item add_line)
           = fst (convertBody env conv2 str item add_line)"
proof -
  have i: "issueReplacer conv1 = issueReplacer conv2"
    using assms(2) by (simp add: issueReplacer_def fun_eq_iff)
  have r: "mrReplacer conv1 = mrReplacer conv2"
    using assms(3) by (simp add: mrReplacer_def fun_eq_iff)
  have m: "milestoneReplacer env conv1 = milestoneReplacer env conv2"
    using assms(1) by (simp add: milestoneReplacer_def fun_eq_iff)
  have ci: "convertIssueRefs env conv1 = convertIssueRefs env conv2"
    by (simp add: convertIssueRefs_def fun_eq_iff i)
  have cm: "convertMilestoneRefs env conv1 = convertMilestoneRefs env conv2"
    by (simp add: convertMilestoneRefs_def fun_eq_iff m)
  have cr: "convertMergeRequestRefs env conv1 = convertMergeRequestRefs env conv2"
    by (simp add: convertMergeRequestRefs_def fun_eq_iff r)
  have ca: "fst (convertAttachments env conv1 s) = fst (convertAttachments env conv2 s)" for s
    by (simp add: convertAttachments_output)
  show ?thesis
    by (simp add: convertBody_def Let_def ci cm cr ca)
qed

theorem convertBody_deterministic_witness:
  "fst (convertBody plainEnvironment sampleConverter ''see #3 and ![x](/uploads/a.png)''
          authoredItem True)
     = fst (convertBody plainEnvironment
          (sampleConverter\<lparr>attachmentMap :=
             [(''/uploads/a.png'', \<lparr>origin = ''/uploads/a.png'', destination = ''elsewhere'',
                 mimeType = None\<rparr>)]\<rparr>)
          ''see #3 and ![x](/uploads/a.png)'' authoredItem True)"
  by (rule convertBody_deterministic) (simp_all add: sampleConverter_def)

section \<open>Building the milestone map again\<close>

lemma keys_order_milestoneLoop:
  "map_keys (milestoneLoop up gh ms lst mm)
     = foldl (\<lambda>ks k. if k \<in> set ks then ks else ks @ [k]) (map_keys mm) (map iid ms)"
  by (induction ms arbitrary: lst mm) (auto simp: map_keys_map_set Let_def split: option.splits)

lemma distinct_milestoneLoop:
  "distinct (map_keys mm) \<Longrightarrow> distinct (map_keys (milestoneLoop up gh ms lst mm))"
  by (induction ms arbitrary: lst mm) (auto simp: distinct_map_set Let_def split: option.splits)

lemma milestoneLoop_found:
  assumes "\<forall>m\<in>set ms. \<exists>v. findMilestone gh m = Some v \<and> Q (iid m) v"
    and "\<forall>(k, v)\<in>set mm. Q k v"
  shows "\<forall>(k, v)\<in>set (milestoneLoop up gh ms lst mm). Q k v"
  using assms
proof (induction ms arbitrary: lst mm)
  case Nil
  then show ?case by simp
next
  case (Cons m ms)
  obtain v where v: "findMilestone gh m = Some v" "Q (iid m) v" using Cons.prems(1) by auto
  have "\<forall>(k, w)\<in>set (map_set (iid m) v mm). Q k w"
    using set_map_set[of "iid m" v mm] Cons.prems(2) v(2) by auto
  then have "\<forall>(k, w)\<in>set (milestoneLoop up gh ms (max lst (iid v)) (map_set (iid m) v mm)). Q k w"
    using Cons.prems(1) by (intro Cons.IH) auto
  then show ?case using v(1) by simp
qed

lemma same_keys_same_values:
  assumes "map fst ys = map fst xs" "distinct (map fst xs)"
    "\<forall>(k, w)\<in>set ys. f w = f (the (map_of xs k))"
  shows "map (\<lambda>(k, v). (k, f v)) ys = map (\<lambda>(k, v). (k, f v)) xs"
proof -
  have "length ys = length xs" using assms(1) by (metis length_map)
  then show ?thesis using assms
  proof (induction ys xs rule: list_induct2)
    case Nil
    then show ?case by simp
  next
    case (Cons y ys x xs)
    obtain k w where y: "y = (k, w)" by (cases y)
    obtain k' v where x: "x = (k', v)" by (cases x)
    have kk: "k' = k" using Cons.prems(1) x y by simp
    have fw: "f w = f v" using Cons.prems(3) x y kk by simp
    have rest: "\<forall>(a, b)\<in>set ys. f b = f (the (map_of xs a))"
    proof (clarify)
      fix a b assume ab: "(a, b) \<in> set ys"
      then have "a \<in> set (map fst ys)" by force
      moreover have "map fst ys = map fst xs" using Cons.prems(1) by simp
      ultimately have "a \<in> set (map fst xs)" by metis
      then have "a \<noteq> k" using Cons.prems(2) x kk by auto
      then show "f b = f (the (map_of xs a))" using Cons.prems(3) ab x kk by auto
    qed
    have "map (\<lambda>(k, v). (k, f v)) ys = map (\<lambda>(k, v). (k, f v)) xs"
      using Cons.prems rest by (intro Cons.IH) auto
    then show ?case using x y kk fw by simp
  qed
qed

lemma rebuild_general:
  assumes "\<forall>m\<in>set src. \<exists>v. findMilestone gh2 m = Some v \<and>
             f v = f (the (map_get (iid m) (buildMilestoneMap up gh src)))"
  shows "map (\<lambda>(k, v). (k, f v)) (buildMilestoneMap up2 gh2 src)
       = map (\<lambda>(k, v). (k, f v)) (buildMilestoneMap up gh src)"
proof -
  let ?M1 = "buildMilestoneMap up gh src"
  let ?M2 = "buildMilestoneMap up2 gh2 src"
  have keys: "map fst ?M2 = map fst ?M1"
    using keys_order_milestoneLoop[of up2 gh2 src _ "[]"] keys_order_milestoneLoop[of up gh src _ "[]"]
    by (simp add: buildMilestoneMap_def map_keys_def)
  have d: "distinct (map fst ?M1)"
    using distinct_milestoneLoop[of "[]" up gh src] by (simp add: buildMilestoneMap_def map_keys_def)
  have "\<forall>(k, w)\<in>set ?M2. f w = f (the (map_of ?M1 k))"
    unfolding buildMilestoneMap_def[of up2 gh2 src]
    using assms by (intro milestoneLoop_found) (auto simp: map_get_def)
  with keys d show ?thesis by (intro same_keys_same_values)
qed


lemma find_SomeD: "find P xs = Some x \<Longrightarrow> P x \<and> x \<in> set xs"
  by (induction xs) (simp_all split: if_splits)

lemma findMilestone_title: "findMilestone gh m = Some v \<Longrightarrow> title v = title m"
  using find_SomeD[of "\<lambda>g. title g = title m" gh v] by (simp add: findMilestone_def)

lemma milestoneLoop_step:
  "\<exists>v lst'. milestoneLoop up gh (m0 # ms) lst mm = milestoneLoop up gh ms lst' (map_set (iid m0) v mm) \<and>
     title v = title m0 \<and> (\<forall>found. findMilestone gh m0 = Some found \<longrightarrow> v = found)"
proof (cases "findMilestone gh m0")
  case None
  define l where "l = (if up then max lst (iid m0 - 1) else lst)"
  have "milestoneLoop up gh (m0 # ms) lst mm
      = milestoneLoop up gh ms (l + 1) (map_set (iid m0) (simpleItem (l + 1) (title m0)) mm)"
    using None by (simp add: Let_def l_def)
  moreover have "title (simpleItem (l + 1) (title m0)) = title m0"
    by (simp add: simpleItem_def)
  moreover have "\<forall>found. findMilestone gh m0 = Some found \<longrightarrow> simpleItem (l + 1) (title m0) = found"
    using None by simp
  ultimately show ?thesis by blast
next
  case (Some found)
  have "milestoneLoop up gh (m0 # ms) lst mm
      = milestoneLoop up gh ms (max lst (iid found)) (map_set (iid m0) found mm)"
    using Some by simp
  moreover have "title found = title m0" using Some by (rule findMilestone_title)
  moreover have "\<forall>f. findMilestone gh m0 = Some f \<longrightarrow> found = f" using Some by simp
  ultimately show ?thesis by blast
qed

lemma milestoneLoop_other_keys:
  "k \<notin> iid ` set ms \<Longrightarrow> map_get k (milestoneLoop up gh ms lst mm) = map_get k mm"
proof (induction ms arbitrary: lst mm)
  case Nil
  then show ?case by simp
next
  case (Cons m0 ms)
  obtain v lst' where e: "milestoneLoop up gh (m0 # ms) lst mm
      = milestoneLoop up gh ms lst' (map_set (iid m0) v mm)"
    using milestoneLoop_step[of up gh m0 ms lst mm] by blast
  have "k \<notin> iid ` set ms" "k \<noteq> iid m0" using Cons.prems by auto
  then show ?case unfolding e using Cons.IH[of lst' "map_set (iid m0) v mm"]
    by (simp add: map_get_map_set)
qed

lemma findMilestone_same_title:
  "title m = title m' \<Longrightarrow> findMilestone gh m = findMilestone gh m'"
  by (simp add: findMilestone_def)

lemma milestoneLoop_value:
  assumes "distinct (map iid ms)" "m \<in> set ms"
  shows "\<exists>v. map_get (iid m) (milestoneLoop up gh ms lst mm) = Some v \<and> title v = title m \<and>
             (\<forall>found. findMilestone gh m = Some found \<longrightarrow> v = found)"
  using assms
proof (induction ms arbitrary: lst mm)
  case Nil
  then show ?case by simp
next
  case (Cons m0 ms)
  obtain v lst' where e: "milestoneLoop up gh (m0 # ms) lst mm
      = milestoneLoop up gh ms lst' (map_set (iid m0) v mm)"
    and v: "title v = title m0" "\<forall>found. findMilestone gh m0 = Some found \<longrightarrow> v = found"
    using milestoneLoop_step[of up gh m0 ms lst mm] by blast
  show ?case
  proof (cases "m \<in> set ms")
    case True
    have d: "distinct (map iid ms)" using Cons.prems(1) by simp
    show ?thesis unfolding e by (rule Cons.IH[OF d True])
  next
    case False
    then have m: "m = m0" using Cons.prems(2) by simp
    have k: "iid m0 \<notin> iid ` set ms" using Cons.prems(1) by auto
    have "map_get (iid m0) (milestoneLoop up gh ms lst' (map_set (iid m0) v mm)) = Some v"
      using milestoneLoop_other_keys[OF k] by (simp add: map_get_map_set)
    then show ?thesis unfolding e m using v by blast
  qed
qed

lemma find_unique:
  "x \<in> set xs \<Longrightarrow> P x \<Longrightarrow> \<forall>y\<in>set xs. P y \<longrightarrow> y = x \<Longrightarrow> find P xs = Some x"
proof (induction xs)
  case Nil
  then show ?case by simp
next
  case (Cons a xs)
  show ?case
  proof (cases "P a")
    case True
    then have "a = x" using Cons.prems(3) by simp
    then show ?thesis using True by simp
  next
    case False
    have xin: "x \<in> set xs" using False Cons.prems(1,2) by auto
    have rest: "\<forall>y\<in>set xs. P y \<longrightarrow> y = x" using Cons.prems(3) by simp
    have "find P xs = Some x" by (rule Cons.IH[OF xin Cons.prems(2) rest])
    then show ?thesis using False by simp
  qed
qed

lemma find_append_first:
  "find P (xs @ ys) = (case find P xs of Some x \<Rightarrow> Some x | None \<Rightarrow> find P ys)"
  by (induction xs) simp_all

lemma rebuild_after_allocation:
  fixes src :: "'a SimpleItem_scheme list"
  assumes t: "distinct (map title src)" and i: "distinct (map iid src)"
  shows "buildMilestoneMap up2 (gh @ allocatedMilestones up gh src) src
           = buildMilestoneMap up gh src"
proof -
  let ?M1 = "buildMilestoneMap up gh src"
  let ?cs = "allocatedMilestones up gh src"
  have val: "\<exists>v. map_get (iid m) ?M1 = Some v \<and> title v = title m \<and>
             (\<forall>found. findMilestone gh m = Some found \<longrightarrow> v = found)"
    if "m \<in> set src" for m
    unfolding buildMilestoneMap_def using i that by (rule milestoneLoop_value)
  have d: "distinct (map fst ?M1)"
    using distinct_milestoneLoop[of "[]" up gh src] by (simp add: buildMilestoneMap_def map_keys_def)
  have entry: "\<exists>m\<in>set src. k = iid m \<and> title w = title m" if "(k, w) \<in> set ?M1" for k w
  proof -
    have "k \<in> set (map_keys ?M1)" using that by (force simp: map_keys_def)
    then obtain m where m: "m \<in> set src" "k = iid m"
      using keys_buildMilestoneMap[of up gh src] by auto
    obtain v where v: "map_get (iid m) ?M1 = Some v" "title v = title m" using val[OF m(1)] by blast
    have "map_of ?M1 k = Some w" using d that by simp
    then have "w = v" using v(1) m(2) by (simp add: map_get_def)
    then show ?thesis using m v(2) by blast
  qed
  have hyp: "\<exists>v. findMilestone (gh @ ?cs) m = Some v \<and> v = the (map_get (iid m) ?M1)"
    if ms: "m \<in> set src" for m
  proof -
    obtain v where v: "map_get (iid m) ?M1 = Some v" "title v = title m"
      "\<forall>found. findMilestone gh m = Some found \<longrightarrow> v = found"
      using val[OF ms] by blast
    show ?thesis
    proof (cases "findMilestone gh m")
      case (Some found)
      then have "findMilestone (gh @ ?cs) m = Some found"
        by (simp add: findMilestone_def find_append_first)
      then show ?thesis using v Some by simp
    next
      case None
      have vin: "(iid m, v) \<in> set ?M1" using v(1) by (simp add: map_get_def map_of_SomeD)
      have nf: "findMilestone gh v = None"
        using None findMilestone_same_title[OF v(2), of gh] by simp
      have vcs: "v \<in> set ?cs"
        using vin nf by (force simp: allocatedMilestones_def map_values_def)
      have uniq: "\<forall>w\<in>set ?cs. title w = title m \<longrightarrow> w = v"
      proof (intro ballI impI)
        fix w assume w: "w \<in> set ?cs" "title w = title m"
        then obtain k where k: "(k, w) \<in> set ?M1"
          by (auto simp: allocatedMilestones_def map_values_def)
        from entry[OF k] obtain m' where m': "m' \<in> set src" "k = iid m'" "title w = title m'"
          by blast
        have "title m' = title m" using w(2) m'(3) by simp
        then have "m' = m" using t m'(1) ms by (auto simp: distinct_map inj_on_def)
        then have "map_of ?M1 (iid m) = Some w" using d k m'(2) by simp
        then show "w = v" using v(1) by (simp add: map_get_def)
      qed
      have "find (\<lambda>g. title g = title m) ?cs = Some v"
        by (rule find_unique[where P = "\<lambda>g. title g = title m", OF vcs v(2) uniq])
      then have "findMilestone (gh @ ?cs) m = Some v"
        using None by (simp add: findMilestone_def find_append_first)
      then show ?thesis using v(1) by simp
    qed
  qed
  have h: "\<forall>m\<in>set src. \<exists>v. findMilestone (gh @ ?cs) m = Some v \<and>
             v = the (map_get (iid m) ?M1)"
    using hyp by blast
  have "map (\<lambda>(k, v). (k, v)) (buildMilestoneMap up2 (gh @ ?cs) src)
      = map (\<lambda>(k, v). (k, v)) ?M1"
    by (rule rebuild_general[where f = "\<lambda>x. x", OF h])
  then show ?thesis by simp
qed


lemma find_exists: "(find P xs \<noteq> None) = (\<exists>x\<in>set xs. P x)"
  by (induction xs) auto

lemma already_migrated_by_title:
  "(findMilestone gh m \<noteq> None) = (title m \<in> title ` set gh)"
proof -
  have "(\<exists>x\<in>set gh. title x = title m) = (title m \<in> title ` set gh)"
  proof
    assume "\<exists>x\<in>set gh. title x = title m"
    then obtain x where x: "x \<in> set gh" and e: "title x = title m" ..
    have "title x \<in> title ` set gh" using x by (rule imageI)
    then show "title m \<in> title ` set gh" unfolding e .
  next
    assume "title m \<in> title ` set gh"
    then obtain x where e: "title m = title x" and x: "x \<in> set gh" by (rule imageE)
    have "title x = title m" using e by simp
    with x show "\<exists>x\<in>set gh. title x = title m" by (rule bexI[rotated])
  qed
  then show ?thesis unfolding findMilestone_def find_exists .
qed


text \<open>
  C8. As stated the claim fails. Two source milestones with one title: the first build
  allocates two numbers, the destination then has that title (once, or twice), and the
  second build sends both \<open>iid\<close>s to the first destination milestone with the title.
  And a destination that holds a created title under another number than the first
  build recorded: the second build takes the destination's number.
\<close>

theorem milestone_rebuild_counterexample:
  "buildMilestoneMap False [] [simpleItem 1 ''A'', simpleItem 2 ''A'']
     = [(1, simpleItem 1 ''A''), (2, simpleItem 2 ''A'')] \<and>
   buildMilestoneMap False [simpleItem 1 ''A''] [simpleItem 1 ''A'', simpleItem 2 ''A'']
     = [(1, simpleItem 1 ''A''), (2, simpleItem 1 ''A'')] \<and>
   buildMilestoneMap False [simpleItem 1 ''A'', simpleItem 2 ''A'']
       [simpleItem 1 ''A'', simpleItem 2 ''A'']
     = [(1, simpleItem 1 ''A''), (2, simpleItem 1 ''A'')] \<and>
   buildMilestoneMap False [] [simpleItem 1 ''B''] = [(1, simpleItem 1 ''B'')] \<and>
   buildMilestoneMap False [simpleItem 5 ''B''] [simpleItem 1 ''B''] = [(1, simpleItem 5 ''B'')]"
  by (simp add: buildMilestoneMap_def findMilestone_def simpleItem_def)

text \<open>
  C8, amended. For source milestones with pairwise different titles and pairwise
  different \<open>iid\<close>s: when the destination list of the second build is the first one
  followed by the milestones the first build allocated (each under the number and
  title of its map entry), the second build yields the same map, with placeholder mode
  on or off. More generally the second map gives every source \<open>iid\<close> the same
  destination number and title whenever every source title resolves, at the second
  build, to a destination milestone with the number and title the first map holds for
  the \<open>iid\<close>. Whether a source milestone counts as already migrated is decided by its
  title alone: it does exactly when a destination milestone has the title.
\<close>

theorem milestone_rebuild:
  fixes gitlabMilestones :: "'a SimpleItem_scheme list"
  shows
  "(distinct (map title gitlabMilestones) \<and> distinct (map iid gitlabMilestones) \<longrightarrow>
      buildMilestoneMap upAgain
          (githubMilestones @ allocatedMilestones up githubMilestones gitlabMilestones)
          gitlabMilestones
        = buildMilestoneMap up githubMilestones gitlabMilestones) \<and>
   ((\<forall>m\<in>set gitlabMilestones.
        map_option (\<lambda>v. (iid v, title v)) (findMilestone githubMilestonesAfter m)
          = map_option (\<lambda>v. (iid v, title v))
              (map_get (iid m) (buildMilestoneMap up githubMilestones gitlabMilestones))) \<longrightarrow>
      destinations (buildMilestoneMap upAgain githubMilestonesAfter gitlabMilestones)
        = destinations (buildMilestoneMap up githubMilestones gitlabMilestones)) \<and>
   ((findMilestone githubMilestones milestone \<noteq> None)
      = (title milestone \<in> title ` set githubMilestones))"
proof -
  let ?M1 = "buildMilestoneMap up githubMilestones gitlabMilestones"
  have a: "distinct (map title gitlabMilestones) \<and> distinct (map iid gitlabMilestones) \<longrightarrow>
      buildMilestoneMap upAgain
          (githubMilestones @ allocatedMilestones up githubMilestones gitlabMilestones)
          gitlabMilestones = ?M1"
    using rebuild_after_allocation[of gitlabMilestones upAgain githubMilestones up] by blast
  have b: "(\<forall>m\<in>set gitlabMilestones.
        map_option (\<lambda>v. (iid v, title v)) (findMilestone githubMilestonesAfter m)
          = map_option (\<lambda>v. (iid v, title v)) (map_get (iid m) ?M1)) \<longrightarrow>
      destinations (buildMilestoneMap upAgain githubMilestonesAfter gitlabMilestones) = destinations ?M1"
  proof
    assume h: "\<forall>m\<in>set gitlabMilestones.
        map_option (\<lambda>v. (iid v, title v)) (findMilestone githubMilestonesAfter m)
          = map_option (\<lambda>v. (iid v, title v)) (map_get (iid m) ?M1)"
    have "\<forall>m\<in>set gitlabMilestones. \<exists>v. findMilestone githubMilestonesAfter m = Some v \<and>
             (\<lambda>v. (iid v, title v)) v = (\<lambda>v. (iid v, title v)) (the (map_get (iid m) ?M1))"
    proof
      fix m assume m: "m \<in> set gitlabMilestones"
      have "iid m \<in> set (map_keys ?M1)" using m keys_buildMilestoneMap[of up githubMilestones gitlabMilestones] by simp
      then have "map_of ?M1 (iid m) \<noteq> None"
        by (simp add: map_keys_def map_of_eq_None_iff)
      then obtain w where w: "map_get (iid m) ?M1 = Some w" by (auto simp: map_get_def)
      from h m have "map_option (\<lambda>v. (iid v, title v)) (findMilestone githubMilestonesAfter m)
          = Some (iid w, title w)" using w by simp
      then obtain v where "findMilestone githubMilestonesAfter m = Some v" "(iid v, title v) = (iid w, title w)"
        by (cases "findMilestone githubMilestonesAfter m") auto
      then show "\<exists>v. findMilestone githubMilestonesAfter m = Some v \<and>
             (\<lambda>v. (iid v, title v)) v = (\<lambda>v. (iid v, title v)) (the (map_get (iid m) ?M1))"
        using w by simp
    qed
    from rebuild_general[where f = "\<lambda>v. (iid v, title v)", OF this]
    show "destinations (buildMilestoneMap upAgain githubMilestonesAfter gitlabMilestones) = destinations ?M1"
      by (simp add: destinations_def)
  qed
  have c: "(findMilestone githubMilestones milestone \<noteq> None)
      = (title milestone \<in> title ` set githubMilestones)"
    by (rule already_migrated_by_title)
  from a b c show ?thesis by (intro conjI)
qed

theorem milestone_rebuild_witness:
  "allocatedMilestones True [simpleItem 1 ''kept''] [simpleItem 1 ''kept'', simpleItem 3 ''new'']
     = [simpleItem 3 ''new''] \<and>
   buildMilestoneMap False [simpleItem 1 ''kept'', simpleItem 3 ''new'']
       [simpleItem 1 ''kept'', simpleItem 3 ''new'']
     = buildMilestoneMap True [simpleItem 1 ''kept''] [simpleItem 1 ''kept'', simpleItem 3 ''new''] \<and>
   buildMilestoneMap True [simpleItem 1 ''kept''] [simpleItem 1 ''kept'', simpleItem 3 ''new'']
     = [(1, simpleItem 1 ''kept''), (3, simpleItem 3 ''new'')]"
proof -
  let ?src = "[simpleItem 1 ''kept'', simpleItem 3 ''new'']"
  let ?gh = "[simpleItem 1 ''kept'']"
  have m1: "buildMilestoneMap True ?gh ?src = [(1, simpleItem 1 ''kept''), (3, simpleItem 3 ''new'')]"
    by (simp add: buildMilestoneMap_def findMilestone_def simpleItem_def)
  have al: "allocatedMilestones True ?gh ?src = [simpleItem 3 ''new'']"
    by code_simp
  have d: "distinct (map title ?src) \<and> distinct (map iid ?src)"
    by (simp add: simpleItem_def)
  have "buildMilestoneMap False (?gh @ allocatedMilestones True ?gh ?src) ?src
      = buildMilestoneMap True ?gh ?src"
    using milestone_rebuild[where gitlabMilestones = ?src and upAgain = False and up = True
        and githubMilestones = ?gh] d by blast
  then have r: "buildMilestoneMap False [simpleItem 1 ''kept'', simpleItem 3 ''new''] ?src
      = buildMilestoneMap True ?gh ?src"
    unfolding al by simp
  from al r m1 show ?thesis by (intro conjI)
qed

end
